theory Spec2Isabelle
  imports Main "HOL-Library.Sublist"
begin

section \<open>The RSS worker (api/src/workers/rss.js)\<close>

text \<open>
  The worker takes a job \<open>{rss, url}\<close> from the queue, acknowledges it on the feed,
  fetches and parses the feed, filters out the articles it already has, upserts the
  others and announces the newly inserted ones.  Every function of the file is an
  \<open>async\<close> function over a document store and a handful of remote services; the
  embedding threads an explicit \<open>world\<close> (the two collections and the chronological
  log of every remote call) through each of them and returns a JavaScript exception
  as a value.  A rejected promise keeps the world it has reached: what was written
  before a \<open>throw\<close> stays written.

  Not modelled: \<open>logger\<close>, the timers of \<open>timeIt\<close> and \<open>statsd.timing\<close>, the queue
  registration of lines 27 and 31-45, the read preference of \<open>.read('sp')\<close> and the
  interleaving with other workers (a job runs alone on the world).
\<close>

subsection \<open>Documents\<close>

text \<open>An article as the parser hands it over: the fields that \<open>upsertArticle\<close> reads.\<close>

record raw_article =
  url :: string
  commentUrl :: string
  content :: string
  description :: string
  title :: string
  enclosures :: "(string \<times> string) list option"
  images :: "(string \<times> string) list option"
  publicationDate :: string

text \<open>Lines 95-96 add \<open>contentHash\<close> to it.\<close>

record post = raw_article +
  contentHash :: string

text \<open>A stored document of the Article collection: line 190-197's \<open>update\<close> plus \<open>_id\<close>.\<close>

record article = post +
  rss :: string
  oid :: string

text \<open>A document of the RSS collection, stored under its \<open>_id\<close>.\<close>

record rss_feed =
  lastScraped :: string
  isParsing :: bool
  consecutiveScrapeFailures :: nat
  postCount :: nat

record job =
  job_rss :: string
  job_url :: string

text \<open>A JavaScript error object; \<open>err_code\<close> is its \<open>code\<close> property, when it has one.\<close>

datatype error = Error (err_code: "nat option") (err_message: string)

definition duplicateKeyError :: nat where
  "duplicateKeyError = 11000"

text \<open>The activity of lines 146-152.\<close>

record activity =
  actor :: string
  foreign_id :: string
  object :: string
  time :: string
  verb :: string

text \<open>The second argument of \<open>RSS.update\<close>: line 236 and lines 109-111.\<close>

datatype rss_set = SetLastScrapedIsParsing string bool | SetPostCount nat

subsection \<open>Remote calls\<close>

text \<open>
  One constructor per call that leaves the process, with the arguments the call is
  given.  \<open>EvStatsdIncrement\<close> is \<open>statsd.increment(name, n)\<close>.
\<close>

datatype event =
    EvRSS_update string rss_set
  | EvRSS_findOne string
  | EvParseFeed string
  | EvRSS_resetScrapeFailures string
  | EvRSS_incrScrapeFailures string
  | EvStatsdIncrement string nat
  | EvArticle_find string "(string \<times> string) list"
  | EvArticle_findOneAndUpdate string post
  | EvArticle_count string
  | EvOgQueueAdd string
  | EvAddActivities string "activity list"
  | EvSendRssFeedToCollections string rss_feed

record world =
  feeds :: "string \<rightharpoonup> rss_feed"
  articles :: "article list"
  nextId :: nat
  trace :: "event list"

text \<open>
  What the worker does not decide: the clock, the parser, the two normalisation
  functions (each may throw), the identifiers the store hands out, and \<open>fault\<close>: the
  error, if any, with which a remote call is rejected for a reason of its own (the
  network, a server error, a write of another worker that won a race).
\<close>

record env =
  now :: string
  ParseFeed :: "string \<Rightarrow> error + raw_article list option"
  normalize_url :: "string \<Rightarrow> error + string"
  computeContentHash :: "raw_article \<Rightarrow> error + string"
  ObjectId :: "nat \<Rightarrow> string"
  fault :: "event \<Rightarrow> error option"

subsection \<open>Promises\<close>

type_synonym 'a io = "world \<Rightarrow> (error + 'a) \<times> world"

definition resolve :: "'a \<Rightarrow> 'a io" where
  "resolve x w = (Inr x, w)"

definition throw :: "error \<Rightarrow> 'a io" where
  "throw e w = (Inl e, w)"

text \<open>\<open>await m\<close> followed by the rest of the function body.\<close>

definition await :: "'a io \<Rightarrow> ('a \<Rightarrow> 'b io) \<Rightarrow> 'b io" where
  "await m f w = (case m w of (Inl e, w') \<Rightarrow> (Inl e, w') | (Inr x, w') \<Rightarrow> f x w')"

text \<open>\<open>try { m } catch (err) { h err }\<close>.\<close>

definition tryCatch :: "'a io \<Rightarrow> (error \<Rightarrow> 'a io) \<Rightarrow> 'a io" where
  "tryCatch m h w = (case m w of (Inl e, w') \<Rightarrow> h e w' | (Inr x, w') \<Rightarrow> (Inr x, w'))"

definition emit :: "event \<Rightarrow> unit io" where
  "emit ev w = (Inr (), w\<lparr>trace := trace w @ [ev]\<rparr>)"

text \<open>A remote call that can be rejected: it is logged, then fails or goes on.\<close>

definition call :: "env \<Rightarrow> event \<Rightarrow> unit io" where
  "call e ev = await (emit ev) (\<lambda>_. case fault e ev of Some err \<Rightarrow> throw err | None \<Rightarrow> resolve ())"

text \<open>
  \<open>Promise.all\<close> over calls that have all been started (line 179 maps
  \<open>upsertArticle\<close> over the list before anything is awaited): every one of them runs,
  here in list order, and the result is the first rejection if there is one.
\<close>

fun promiseAll :: "'a io list \<Rightarrow> 'a list io" where
  "promiseAll [] w = (Inr [], w)"
| "promiseAll (m # ms) w =
     (case m w of (r, world1) \<Rightarrow>
        (case promiseAll ms world1 of (rs, w2) \<Rightarrow>
           (case r of
              Inl e \<Rightarrow> (Inl e, w2)
            | Inr x \<Rightarrow> (case rs of Inl e' \<Rightarrow> (Inl e', w2) | Inr xs \<Rightarrow> (Inr (x # xs), w2)))))"

subsection \<open>The RSS collection\<close>

fun apply_set :: "rss_set \<Rightarrow> rss_feed \<Rightarrow> rss_feed" where
  "apply_set (SetLastScrapedIsParsing t b) f = f\<lparr>lastScraped := t, isParsing := b\<rparr>"
| "apply_set (SetPostCount n) f = f\<lparr>postCount := n\<rparr>"

definition update_feed :: "string \<Rightarrow> (rss_feed \<Rightarrow> rss_feed) \<Rightarrow> world \<Rightarrow> world" where
  "update_feed rssID g w =
     (case feeds w rssID of
        None \<Rightarrow> w
      | Some f \<Rightarrow> w\<lparr>feeds := (feeds w)(rssID \<mapsto> g f)\<rparr>)"

text \<open>\<open>RSS.update({ _id: rssID }, s)\<close>: no document with that \<open>_id\<close>, nothing written.\<close>

definition RSS_update :: "env \<Rightarrow> string \<Rightarrow> rss_set \<Rightarrow> unit io" where
  "RSS_update e rssID s =
     await (call e (EvRSS_update rssID s)) (\<lambda>_ w. (Inr (), update_feed rssID (apply_set s) w))"

definition RSS_findOne :: "env \<Rightarrow> string \<Rightarrow> rss_feed option io" where
  "RSS_findOne e rssID =
     await (call e (EvRSS_findOne rssID)) (\<lambda>_ w. (Inr (feeds w rssID), w))"

text \<open>
  Modelled from the spec: \<open>RSS.resetScrapeFailures\<close> of models/rss, which is not among
  the sources.  Section 4.2: "On success, resets the feed's \<open>consecutiveFailureCount\<close>
  to 0."
\<close>

definition RSS_resetScrapeFailures :: "env \<Rightarrow> string \<Rightarrow> unit io" where
  "RSS_resetScrapeFailures e rssID =
     await (call e (EvRSS_resetScrapeFailures rssID))
       (\<lambda>_ w. (Inr (), update_feed rssID (\<lambda>f. f\<lparr>consecutiveScrapeFailures := 0\<rparr>) w))"

text \<open>
  Modelled from the spec: \<open>RSS.incrScrapeFailures\<close> of models/rss, which is not among
  the sources.  Section 4.2: "On failure, increments the counter by 1".
\<close>

definition RSS_incrScrapeFailures :: "env \<Rightarrow> string \<Rightarrow> unit io" where
  "RSS_incrScrapeFailures e rssID =
     await (call e (EvRSS_incrScrapeFailures rssID))
       (\<lambda>_ w. (Inr (),
          update_feed rssID (\<lambda>f. f\<lparr>consecutiveScrapeFailures := consecutiveScrapeFailures f + 1\<rparr>) w))"

text \<open>Lines 232-238.\<close>

definition markDone :: "env \<Rightarrow> string \<Rightarrow> unit io" where
  "markDone e rssID = RSS_update e rssID (SetLastScrapedIsParsing (now e) False)"

subsection \<open>The Article collection\<close>

text \<open>
  \<open>Article.find({$and: [{rss: rssID}, {$or: searchData}]}, {url: 1, contentHash: 1})\<close>
  of line 166: the documents of the feed whose url and contentHash are both those of
  one entry of \<open>searchData\<close>, projected on the two fields.  A query that the server
  refuses, as it does an empty \<open>$or\<close>, is one of the rejections of \<open>fault\<close>.
\<close>

definition matching :: "string \<Rightarrow> (string \<times> string) list \<Rightarrow> article list \<Rightarrow> (string \<times> string) list" where
  "matching rssID pairs as =
     map (\<lambda>a. (url a, contentHash a))
       (filter (\<lambda>a. rss a = rssID \<and> (url a, contentHash a) \<in> set pairs) as)"

definition Article_find :: "env \<Rightarrow> string \<Rightarrow> (string \<times> string) list \<Rightarrow> (string \<times> string) list io" where
  "Article_find e rssID pairs =
     await (call e (EvArticle_find rssID pairs))
       (\<lambda>_ w. (Inr (matching rssID pairs (articles w)), w))"

text \<open>\<open>Article.count({rss: rssID})\<close> of line 110.\<close>

definition Article_count :: "env \<Rightarrow> string \<Rightarrow> nat io" where
  "Article_count e rssID =
     await (call e (EvArticle_count rssID))
       (\<lambda>_ w. (Inr (length (filter (\<lambda>a. rss a = rssID) (articles w))), w))"

text \<open>
  Lines 199-201 and 209, \<open>{$or: postContentDiffers}\<close>: one \<open>$ne\<close> per key of
  \<open>search\<close>, in the order of lines 185-188.
\<close>

definition postContentDiffers :: "post \<Rightarrow> article \<Rightarrow> bool" where
  "postContentDiffers p a =
     (commentUrl a \<noteq> commentUrl p \<or> content a \<noteq> content p \<or>
      description a \<noteq> description p \<or> title a \<noteq> title p)"

text \<open>
  Lines 190-197, the \<open>update\<close> document, written over the document \<open>i\<close>.
  \<open>post.enclosures || {}\<close>: an absent mapping is stored as the empty one.
\<close>

definition update :: "string \<Rightarrow> post \<Rightarrow> string \<Rightarrow> article" where
  "update rssID p i =
     \<lparr>url = url p, commentUrl = commentUrl p, content = content p,
      description = description p, title = title p,
      enclosures = Some (case enclosures p of None \<Rightarrow> [] | Some m \<Rightarrow> m),
      images = Some (case images p of None \<Rightarrow> [] | Some m \<Rightarrow> m),
      publicationDate = publicationDate p, contentHash = contentHash p,
      rss = rssID, oid = i\<rparr>"

text \<open>The \<open>rawResult\<close> of line 216: \<open>value\<close> and \<open>lastErrorObject.updatedExisting\<close>.\<close>

record raw_result =
  rr_value :: article
  updatedExisting :: bool

text \<open>The first document that matches is replaced; the result is the new document too.\<close>

fun update_first :: "(article \<Rightarrow> bool) \<Rightarrow> (article \<Rightarrow> article) \<Rightarrow> article list
    \<Rightarrow> (article \<times> article list) option" where
  "update_first P g [] = None"
| "update_first P g (a # as) =
     (if P a then Some (g a, g a # as)
      else (case update_first P g as of
              None \<Rightarrow> None
            | Some (d, as') \<Rightarrow> Some (d, a # as')))"

text \<open>
  Modelled from the spec: the unique index of the Article schema (models/article is
  not among the sources).  Section 3: "at most one stored Article per (\<open>feedID\<close>,
  \<open>normalizedURL\<close>) at any instant; a store-level uniqueness constraint on this pair".
  An insert is rejected with \<open>duplicateKeyError\<close> when the feed already has a
  document with that url.
\<close>

definition violatesUniqueIndex :: "string \<Rightarrow> string \<Rightarrow> article list \<Rightarrow> bool" where
  "violatesUniqueIndex rssID u as = list_ex (\<lambda>a. rss a = rssID \<and> url a = u) as"

text \<open>
  \<open>Article.findOneAndUpdate\<close> of lines 205-218 with \<open>upsert: true\<close> and \<open>new: true\<close>:
  a document of the feed with the post's url and a differing content field is
  overwritten with \<open>update\<close> (its \<open>_id\<close> stays); when there is none, \<open>update\<close> is inserted
  under a new \<open>_id\<close>, unless the unique index rejects it.
\<close>

definition Article_findOneAndUpdate :: "env \<Rightarrow> string \<Rightarrow> post \<Rightarrow> raw_result io" where
  "Article_findOneAndUpdate e rssID p =
     await (call e (EvArticle_findOneAndUpdate rssID p))
       (\<lambda>_ w.
          case update_first (\<lambda>a. rss a = rssID \<and> url a = url p \<and> postContentDiffers p a)
                 (\<lambda>a. update rssID p (oid a)) (articles w) of
            Some (d, as') \<Rightarrow>
              (Inr \<lparr>rr_value = d, updatedExisting = True\<rparr>, w\<lparr>articles := as'\<rparr>)
          | None \<Rightarrow>
              if violatesUniqueIndex rssID (url p) (articles w)
              then (Inl (Error (Some duplicateKeyError) ''E11000 duplicate key error''), w)
              else
                (let d = update rssID p (ObjectId e (nextId w))
                 in (Inr \<lparr>rr_value = d, updatedExisting = False\<rparr>,
                     w\<lparr>articles := articles w @ [d], nextId := Suc (nextId w)\<rparr>)))"

subsection \<open>upsertArticle (lines 183-229)\<close>

text \<open>
  What the promise of \<open>upsertArticle\<close> resolves to: the stored document (line 220),
  \<open>null\<close> (line 225), or \<open>undefined\<close> when the body ends without a \<open>return\<close>
  (after line 221, the document was updated).
\<close>

datatype upsert_result = Doc article | Null | Undefined

definition upsertArticle :: "env \<Rightarrow> string \<Rightarrow> post \<Rightarrow> upsert_result io" where
  "upsertArticle e rssID p =
     tryCatch
       (await (Article_findOneAndUpdate e rssID p)
          (\<lambda>rawArticle.
             if \<not> updatedExisting rawArticle then resolve (Doc (rr_value rawArticle))
             else resolve Undefined))
       (\<lambda>err.
          if err_code err = Some duplicateKeyError
          then await (emit (EvStatsdIncrement ''winds.handle_rss.articles.ignored'' 1))
                 (\<lambda>_. resolve Null)
          else throw err)"

subsection \<open>upsertManyArticles (lines 161-180)\<close>

definition searchData :: "post list \<Rightarrow> (string \<times> string) list" where
  "searchData as = map (\<lambda>article. (url article, contentHash article)) as"

text \<open>Lines 168-175, from the result \<open>existingArticles\<close> of the query.\<close>

definition articlesToUpsert :: "(string \<times> string) list \<Rightarrow> post list \<Rightarrow> post list" where
  "articlesToUpsert existingArticles as =
     (let existingArticleUrls = map fst existingArticles;
          existingArticleHashes = map snd existingArticles
      in filter (\<lambda>article. url article \<notin> set existingArticleUrls \<and>
                            contentHash article \<notin> set existingArticleHashes) as)"

definition upsertManyArticles :: "env \<Rightarrow> string \<Rightarrow> post list \<Rightarrow> upsert_result list io" where
  "upsertManyArticles e rssID as =
     await (Article_find e rssID (searchData as))
       (\<lambda>existingArticles.
          await (emit (EvStatsdIncrement ''winds.handle_rss.articles.already_in_mongo''
                         (length (map fst existingArticles))))
            (\<lambda>_. promiseAll (map (\<lambda>article. upsertArticle e rssID article)
                                 (articlesToUpsert existingArticles as))))"

subsection \<open>handleRSS (lines 48-159)\<close>

text \<open>Lines 67-76: the parser call between the two failure-counter updates.\<close>

definition fetch :: "env \<Rightarrow> string \<Rightarrow> raw_article list option io" where
  "fetch e u =
     await (emit (EvParseFeed u))
       (\<lambda>_. case ParseFeed e u of Inl err \<Rightarrow> throw err | Inr res \<Rightarrow> resolve res)"

definition parsing :: "env \<Rightarrow> job \<Rightarrow> raw_article list option io" where
  "parsing e j =
     tryCatch
       (await (fetch e (job_url j))
          (\<lambda>res. await (RSS_resetScrapeFailures e (job_rss j)) (\<lambda>_. resolve res)))
       (\<lambda>err. await (RSS_incrScrapeFailures e (job_rss j)) (\<lambda>_. throw err))"

text \<open>Lines 93-102: an article whose url or hash cannot be computed becomes \<open>null\<close>
  and is filtered out.\<close>

definition normalizeArticle :: "env \<Rightarrow> raw_article \<Rightarrow> post option" where
  "normalizeArticle e a =
     (case normalize_url e (url a) of
        Inl err \<Rightarrow> None
      | Inr u \<Rightarrow>
          (case computeContentHash e (a\<lparr>url := u\<rparr>) of
             Inl err \<Rightarrow> None
           | Inr h \<Rightarrow> Some (raw_article.extend (a\<lparr>url := u\<rparr>) (post.fields h))))"

definition normalizeArticles :: "env \<Rightarrow> raw_article list \<Rightarrow> post list" where
  "normalizeArticles e as = List.map_filter (normalizeArticle e) as"

text \<open>Lines 115-117: \<open>filter\<close> keeps the truthy results, which are the documents.\<close>

fun updatedArticles :: "upsert_result list \<Rightarrow> article list" where
  "updatedArticles [] = []"
| "updatedArticles (Doc d # rs) = d # updatedArticles rs"
| "updatedArticles (Null # rs) = updatedArticles rs"
| "updatedArticles (Undefined # rs) = updatedArticles rs"

text \<open>Lines 121-136: one \<open>OgQueueAdd\<close> per article, none of them awaited.\<close>

fun OgQueueAddAll :: "article list \<Rightarrow> unit io" where
  "OgQueueAddAll [] = resolve ()"
| "OgQueueAddAll (a # as) = await (emit (EvOgQueueAdd (url a))) (\<lambda>_. OgQueueAddAll as)"

definition streamArticle :: "article \<Rightarrow> activity" where
  "streamArticle a =
     \<lparr>actor = rss a, foreign_id = ''articles:'' @ oid a, object = oid a,
      time = publicationDate a, verb = ''rss_article''\<rparr>"

definition chunkSize :: nat where
  "chunkSize = 100"

text \<open>\<open>xs.slice(i, k)\<close> for \<open>i \<le> k\<close>.\<close>

definition slice :: "nat \<Rightarrow> nat \<Rightarrow> 'a list \<Rightarrow> 'a list" where
  "slice i k xs = take (k - i) (drop i xs)"

text \<open>The \<open>for\<close> loop of lines 143-155, from the index \<open>i\<close> on.\<close>

function addActivitiesLoop :: "env \<Rightarrow> string \<Rightarrow> article list \<Rightarrow> nat \<Rightarrow> unit io" where
  "addActivitiesLoop e rssID as i w =
     (if i < length as then
        (case call e (EvAddActivities rssID (map streamArticle (slice i (i + chunkSize) as))) w of
           (Inl err, w') \<Rightarrow> (Inl err, w')
         | (Inr _, w') \<Rightarrow> addActivitiesLoop e rssID as (i + chunkSize) w')
      else (Inr (), w))"
  by pat_completeness auto
termination
  by (relation "measure (\<lambda>(e, rssID, as, i, w). length as - i)") (auto simp: chunkSize_def)

text \<open>Lines 119-158.\<close>

definition fanOut :: "env \<Rightarrow> string \<Rightarrow> rss_feed \<Rightarrow> article list \<Rightarrow> unit io" where
  "fanOut e rssID rssDoc as =
     await (emit (EvStatsdIncrement ''winds.handle_rss.articles.upserted'' (length as)))
       (\<lambda>_. await (OgQueueAddAll as)
          (\<lambda>_. if length as > 0
                then await (addActivitiesLoop e rssID as 0)
                       (\<lambda>_. call e (EvSendRssFeedToCollections rssID rssDoc))
                else resolve ()))"

text \<open>Lines 82-158, after the parser has returned \<open>raws\<close>.\<close>

definition updateArticles :: "env \<Rightarrow> string \<Rightarrow> rss_feed \<Rightarrow> raw_article list \<Rightarrow> unit io" where
  "updateArticles e rssID rssDoc raws =
     (if length raws = 0 then resolve ()
      else
        await (emit (EvStatsdIncrement ''winds.handle_rss.articles.parsed'' (length raws)))
          (\<lambda>_. await (upsertManyArticles e rssID (normalizeArticles e raws))
             (\<lambda>allArticles. await (Article_count e rssID)
                (\<lambda>n. await (RSS_update e rssID (SetPostCount n))
                   (\<lambda>_. fanOut e rssID rssDoc (updatedArticles allArticles))))))"

definition handleRSS :: "env \<Rightarrow> job \<Rightarrow> unit io" where
  "handleRSS e j =
     (let rssID = job_rss j in
      await (markDone e rssID)
        (\<lambda>_. await (RSS_findOne e rssID)
           (\<lambda>found. case found of
                None \<Rightarrow> resolve ()
              | Some rssDoc \<Rightarrow>
                  await (parsing e j)
                    (\<lambda>rssContent. case rssContent of
                         None \<Rightarrow> resolve ()
                       | Some raws \<Rightarrow> updateArticles e rssID rssDoc raws))))"

section \<open>Observations\<close>

text \<open>
  What a run leaves behind is read off the world.  \<open>keeps obs m\<close>: the computation
  \<open>m\<close> never changes the observation \<open>obs\<close>; \<open>logs m\<close>: it only appends to the log.
\<close>

definition keeps :: "(world \<Rightarrow> 'b) \<Rightarrow> 'a io \<Rightarrow> bool" where
  "keeps obs m = (\<forall>w. obs (snd (m w)) = obs w)"

definition logs :: "'a io \<Rightarrow> bool" where
  "logs m = (\<forall>w. prefix (trace w) (trace (snd (m w))))"

text \<open>The events a run has added to the log of \<open>w\<close>.\<close>

definition newEvents :: "world \<Rightarrow> world \<Rightarrow> event list" where
  "newEvents w w' = drop (length (trace w)) (trace w')"

text \<open>
  A projection of the log keeps, for every call, what one is looking for: the
  \<open>findOneAndUpdate\<close> calls (feed and post), the calls to the activity stream and to
  the collections, the chunks handed to \<open>addActivities\<close>, the urls handed to
  \<open>OgQueueAdd\<close>, the reads and writes of \<open>postCount\<close> (\<open>Article.count\<close> and \<open>RSS.update\<close>
  with a count).
\<close>

fun upsertCall :: "event \<Rightarrow> (string \<times> post) list" where
  "upsertCall (EvArticle_findOneAndUpdate f p) = [(f, p)]"
| "upsertCall _ = []"

definition upsertCalls :: "event list \<Rightarrow> (string \<times> post) list" where
  "upsertCalls evs = concat (map upsertCall evs)"

fun streamCall :: "event \<Rightarrow> event list" where
  "streamCall (EvAddActivities f acts) = [EvAddActivities f acts]"
| "streamCall (EvSendRssFeedToCollections f d) = [EvSendRssFeedToCollections f d]"
| "streamCall _ = []"

definition streamCalls :: "event list \<Rightarrow> event list" where
  "streamCalls evs = concat (map streamCall evs)"

fun activityChunk :: "event \<Rightarrow> activity list list" where
  "activityChunk (EvAddActivities f acts) = [acts]"
| "activityChunk _ = []"

definition activityChunks :: "event list \<Rightarrow> activity list list" where
  "activityChunks evs = concat (map activityChunk evs)"

fun ogCall :: "event \<Rightarrow> string list" where
  "ogCall (EvOgQueueAdd u) = [u]"
| "ogCall _ = []"

definition ogCalls :: "event list \<Rightarrow> string list" where
  "ogCalls evs = concat (map ogCall evs)"

fun postCountCall :: "event \<Rightarrow> event list" where
  "postCountCall (EvArticle_count f) = [EvArticle_count f]"
| "postCountCall (EvRSS_update f (SetPostCount n)) = [EvRSS_update f (SetPostCount n)]"
| "postCountCall _ = []"

definition postCountCalls :: "event list \<Rightarrow> event list" where
  "postCountCalls evs = concat (map postCountCall evs)"

section \<open>Concrete runs\<close>

text \<open>
  A feed \<open>F\<close> that failed three times, a parser that returns one article, functions
  that normalise nothing and never throw, and a store that rejects nothing.
\<close>

definition raw1 :: raw_article where
  "raw1 = \<lparr>url = ''a.com/1'', commentUrl = ''a.com/1#c'', content = ''body'', description = ''d'',
     title = ''T'', enclosures = None, images = None, publicationDate = ''2018-01-01''\<rparr>"

definition env0 :: env where
  "env0 = \<lparr>now = ''now'', ParseFeed = (\<lambda>u. Inr (Some [raw1])),
     normalize_url = (\<lambda>u. Inr u), computeContentHash = (\<lambda>a. Inr (title a @ content a)),
     ObjectId = (\<lambda>n. replicate (Suc n) CHR ''i''), fault = (\<lambda>_. None)\<rparr>"

definition feed0 :: rss_feed where
  "feed0 = \<lparr>lastScraped = ''then'', isParsing = True, consecutiveScrapeFailures = 3, postCount = 0\<rparr>"

definition world0 :: world where
  "world0 = \<lparr>feeds = [''F'' \<mapsto> feed0], articles = [], nextId = 0, trace = []\<rparr>"

definition job0 :: job where
  "job0 = \<lparr>job_rss = ''F'', job_url = ''a.com/feed''\<rparr>"

text \<open>One article of \<open>F\<close> is stored; three other posts share its url or its hash.\<close>

definition post1 :: post where
  "post1 = raw_article.extend raw1 (post.fields ''Tbody'')"

definition post2 :: post where
  "post2 = post1\<lparr>url := ''a.com/2'', title := ''U'', contentHash := ''Ubody''\<rparr>"

definition post3 :: post where
  "post3 = post1\<lparr>url := ''a.com/3''\<rparr>"

definition post4 :: post where
  "post4 = post1\<lparr>title := ''T2'', contentHash := ''T2body''\<rparr>"

definition stored1 :: article where
  "stored1 = update ''F'' post1 ''i''"

definition world1 :: world where
  "world1 = world0\<lparr>articles := [stored1], nextId := 1\<rparr>"


text \<open>The same, with a parser that fails.\<close>

definition env_down :: env where
  "env_down = env0\<lparr>ParseFeed := (\<lambda>u. Inl (Error None ''ETIMEDOUT''))\<rparr>"

text \<open>The same, with a parser that returns the article under a new title.\<close>

definition env_changed :: env where
  "env_changed = env0\<lparr>ParseFeed := (\<lambda>u. Inr (Some [raw1\<lparr>title := ''T2''\<rparr>]))\<rparr>"

text \<open>The same, with a parser that finds no article in the feed.\<close>

definition env_empty :: env where
  "env_empty = env0\<lparr>ParseFeed := (\<lambda>u. Inr (Some []))\<rparr>"

text \<open>The same, with a parser that returns the stored article and a new one.\<close>

definition env_two :: env where
  "env_two = env0\<lparr>ParseFeed := (\<lambda>u. Inr (Some [raw1, raw1\<lparr>url := ''a.com/2'', title := ''U''\<rparr>]))\<rparr>"


section \<open>Projections\<close>

lemma upsertCalls_simps [simp]:
  "upsertCalls [] = []" "upsertCalls (ev # evs) = upsertCall ev @ upsertCalls evs"
  by (simp_all add: upsertCalls_def)

lemma streamCalls_simps [simp]:
  "streamCalls [] = []" "streamCalls (ev # evs) = streamCall ev @ streamCalls evs"
  by (simp_all add: streamCalls_def)

lemma activityChunks_simps [simp]:
  "activityChunks [] = []" "activityChunks (ev # evs) = activityChunk ev @ activityChunks evs"
  by (simp_all add: activityChunks_def)

lemma ogCalls_simps [simp]:
  "ogCalls [] = []" "ogCalls (ev # evs) = ogCall ev @ ogCalls evs"
  by (simp_all add: ogCalls_def)

lemma postCountCalls_simps [simp]:
  "postCountCalls [] = []" "postCountCalls (ev # evs) = postCountCall ev @ postCountCalls evs"
  by (simp_all add: postCountCalls_def)

lemma streamCalls_append: "streamCalls (xs @ ys) = streamCalls xs @ streamCalls ys"
  by (simp add: streamCalls_def)

lemma postCountCalls_append: "postCountCalls (xs @ ys) = postCountCalls xs @ postCountCalls ys"
  by (simp add: postCountCalls_def)

section \<open>Frame lemmas\<close>

lemmas io_defs = resolve_def throw_def await_def tryCatch_def emit_def call_def

declare addActivitiesLoop.simps [simp del]

lemma keepsD: "keeps obs m \<Longrightarrow> m w = (r, w') \<Longrightarrow> obs w' = obs w"
  by (auto simp add: keeps_def dest: spec[of _ w])

lemma keeps_resolve: "keeps obs (resolve x)"
  by (simp add: keeps_def resolve_def)

lemma keeps_throw: "keeps obs (throw x)"
  by (simp add: keeps_def throw_def)

lemma keeps_await: "keeps obs m \<Longrightarrow> (\<And>x. keeps obs (f x)) \<Longrightarrow> keeps obs (await m f)"
  unfolding keeps_def await_def
  by (auto split: prod.splits sum.splits) (metis snd_conv)+

lemma keeps_tryCatch: "keeps obs m \<Longrightarrow> (\<And>x. keeps obs (h x)) \<Longrightarrow> keeps obs (tryCatch m h)"
  unfolding keeps_def tryCatch_def
  by (auto split: prod.splits sum.splits) (metis snd_conv)+

lemma keeps_promiseAll: "(\<And>m. m \<in> set ms \<Longrightarrow> keeps obs m) \<Longrightarrow> keeps obs (promiseAll ms)"
proof (induction ms)
  case Nil
  then show ?case by (simp add: keeps_def)
next
  case (Cons m ms)
  have a: "keeps obs m" and b: "keeps obs (promiseAll ms)" using Cons by simp_all
  show ?case unfolding keeps_def
  proof
    fix w
    obtain r w1 where 1: "m w = (r, w1)" by (cases "m w")
    obtain rs w2 where 2: "promiseAll ms w1 = (rs, w2)" by (cases "promiseAll ms w1")
    have "obs w1 = obs w" using keepsD [OF a 1] .
    moreover have "obs w2 = obs w1" using keepsD [OF b 2] .
    ultimately show "obs (snd (promiseAll (m # ms) w)) = obs w"
      using 1 2 by (simp split: sum.splits)
  qed
qed

text \<open>An observation that does not read the log.\<close>

lemma keeps_emit: "(\<And>w t. obs (w\<lparr>trace := t\<rparr>) = obs w) \<Longrightarrow> keeps obs (emit ev)"
  by (simp add: keeps_def emit_def)

lemma keeps_call: "(\<And>w t. obs (w\<lparr>trace := t\<rparr>) = obs w) \<Longrightarrow> keeps obs (call e ev)"
  unfolding call_def
  by (intro keeps_await keeps_emit) (simp_all add: keeps_throw keeps_resolve split: option.splits)

lemma keeps_state: "(\<And>w. obs (g w) = obs w) \<Longrightarrow> keeps obs (\<lambda>w. (Inr (x w), g w))"
  by (simp add: keeps_def)

lemma articles_update_feed: "articles (update_feed rssID g w) = articles w"
  by (simp add: update_feed_def split: option.splits)

lemma keeps_articles_RSS_update: "keeps articles (RSS_update e rssID s)"
  unfolding RSS_update_def
  by (intro keeps_await keeps_call keeps_state) (simp_all add: articles_update_feed)

lemma keeps_articles_markDone: "keeps articles (markDone e rssID)"
  unfolding markDone_def by (rule keeps_articles_RSS_update)

lemma keeps_articles_RSS_findOne: "keeps articles (RSS_findOne e rssID)"
  unfolding RSS_findOne_def
  by (intro keeps_await keeps_call keeps_state) simp_all

lemma keeps_articles_reset: "keeps articles (RSS_resetScrapeFailures e rssID)"
  unfolding RSS_resetScrapeFailures_def
  by (intro keeps_await keeps_call keeps_state) (simp_all add: articles_update_feed)

lemma keeps_articles_incr: "keeps articles (RSS_incrScrapeFailures e rssID)"
  unfolding RSS_incrScrapeFailures_def
  by (intro keeps_await keeps_call keeps_state) (simp_all add: articles_update_feed)

lemma keeps_fetch: "(\<And>w t. obs (w\<lparr>trace := t\<rparr>) = obs w) \<Longrightarrow> keeps obs (fetch e u)"
  unfolding fetch_def
  by (intro keeps_await keeps_emit) (simp_all add: keeps_throw keeps_resolve split: sum.splits)

lemma keeps_articles_parsing: "keeps articles (parsing e j)"
  unfolding parsing_def
  by (intro keeps_tryCatch keeps_await keeps_fetch keeps_articles_reset keeps_articles_incr
      keeps_resolve keeps_throw) simp

lemma keeps_Article_find:
  "(\<And>w t. obs (w\<lparr>trace := t\<rparr>) = obs w) \<Longrightarrow> keeps obs (Article_find e rssID pairs)"
  unfolding Article_find_def
  by (intro keeps_await keeps_call keeps_state) simp_all

lemma keeps_Article_count:
  "(\<And>w t. obs (w\<lparr>trace := t\<rparr>) = obs w) \<Longrightarrow> keeps obs (Article_count e rssID)"
  unfolding Article_count_def
  by (intro keeps_await keeps_call keeps_state) simp_all

lemma keeps_OgQueueAddAll:
  "(\<And>w t. obs (w\<lparr>trace := t\<rparr>) = obs w) \<Longrightarrow> keeps obs (OgQueueAddAll as)"
  by (induction as) (auto intro!: keeps_resolve keeps_await keeps_emit)

lemma keeps_addActivitiesLoop:
  assumes "\<And>w t. obs (w\<lparr>trace := t\<rparr>) = obs w"
  shows "keeps obs (addActivitiesLoop e rssID as i)"
  unfolding keeps_def
proof
  fix w
  show "obs (snd (addActivitiesLoop e rssID as i w)) = obs w"
  proof (induction e rssID as i w rule: addActivitiesLoop.induct)
    case (1 e rssID as i w)
    let ?c = "call e (EvAddActivities rssID (map streamArticle (slice i (i + chunkSize) as)))"
    obtain r w1 where c: "?c w = (r, w1)" by (cases "?c w")
    have "keeps obs ?c" using assms by (rule keeps_call)
    then have k: "obs w1 = obs w" using c by (rule keepsD)
    show ?case
    proof (cases "i < length as")
      case False
      then show ?thesis by (simp add: addActivitiesLoop.simps [of e rssID as i w])
    next
      case True
      show ?thesis
      proof (cases r)
        case (Inl err)
        then show ?thesis using True c k by (simp add: addActivitiesLoop.simps [of e rssID as i w])
      next
        case (Inr u)
        have "obs (snd (addActivitiesLoop e rssID as (i + chunkSize) w1)) = obs w1"
          using "1.IH" [OF True c [symmetric] Inr] .
        then show ?thesis using True c k Inr
          by (simp add: addActivitiesLoop.simps [of e rssID as i w])
      qed
    qed
  qed
qed

lemma keeps_fanOut:
  "(\<And>w t. obs (w\<lparr>trace := t\<rparr>) = obs w) \<Longrightarrow> keeps obs (fanOut e rssID rssDoc as)"
  unfolding fanOut_def
  by (intro keeps_await keeps_emit keeps_OgQueueAddAll)
     (simp_all add: keeps_resolve keeps_addActivitiesLoop keeps_await keeps_call)

section \<open>The log only grows\<close>

lemma logsD: "logs m \<Longrightarrow> m w = (r, w') \<Longrightarrow> prefix (trace w) (trace w')"
  by (auto simp add: logs_def dest: spec[of _ w])

lemma logs_resolve: "logs (resolve x)"
  by (simp add: logs_def resolve_def)

lemma logs_throw: "logs (throw x)"
  by (simp add: logs_def throw_def)

lemma logs_emit: "logs (emit ev)"
  by (simp add: logs_def emit_def)

lemma logs_state: "(\<And>w. trace (g w) = trace w) \<Longrightarrow> logs (\<lambda>w. (x w, g w))"
  by (simp add: logs_def)

lemma logs_await: 
  assumes m: "logs m" and f: "\<And>x. logs (f x)"
  shows "logs (await m f)"
  unfolding logs_def
proof
  fix w
  obtain r w1 where 1: "m w = (r, w1)" by (cases "m w")
  have p1: "prefix (trace w) (trace w1)" using m 1 by (rule logsD)
  show "prefix (trace w) (trace (snd (await m f w)))"
  proof (cases r)
    case (Inl a)
    then show ?thesis using 1 p1 by (simp add: await_def)
  next
    case (Inr x)
    have "prefix (trace w1) (trace (snd (f x w1)))" using f [of x] by (simp add: logs_def)
    then show ?thesis using 1 p1 Inr by (simp add: await_def)
  qed
qed

lemma logs_tryCatch: 
  assumes m: "logs m" and h: "\<And>x. logs (h x)"
  shows "logs (tryCatch m h)"
  unfolding logs_def
proof
  fix w
  obtain r w1 where 1: "m w = (r, w1)" by (cases "m w")
  have p1: "prefix (trace w) (trace w1)" using m 1 by (rule logsD)
  show "prefix (trace w) (trace (snd (tryCatch m h w)))"
  proof (cases r)
    case (Inr a)
    then show ?thesis using 1 p1 by (simp add: tryCatch_def)
  next
    case (Inl x)
    have "prefix (trace w1) (trace (snd (h x w1)))" using h [of x] by (simp add: logs_def)
    then show ?thesis using 1 p1 Inl by (simp add: tryCatch_def)
  qed
qed

lemma logs_promiseAll: "(\<And>m. m \<in> set ms \<Longrightarrow> logs m) \<Longrightarrow> logs (promiseAll ms)"
proof (induction ms)
  case Nil
  then show ?case by (simp add: logs_def)
next
  case (Cons m ms)
  have a: "logs m" and b: "logs (promiseAll ms)" using Cons by simp_all
  show ?case unfolding logs_def
  proof
    fix w
    obtain r w1 where 1: "m w = (r, w1)" by (cases "m w")
    obtain rs w2 where 2: "promiseAll ms w1 = (rs, w2)" by (cases "promiseAll ms w1")
    have "prefix (trace w) (trace w1)" using logsD [OF a 1] .
    moreover have "prefix (trace w1) (trace w2)" using logsD [OF b 2] .
    ultimately have "prefix (trace w) (trace w2)" by simp
    then show "prefix (trace w) (trace (snd (promiseAll (m # ms) w)))"
      using 1 2 by (simp split: sum.splits)
  qed
qed

lemma logs_call: "logs (call e ev)"
  unfolding call_def 
  by (intro logs_await logs_emit) (simp add: logs_throw logs_resolve split: option.splits)

lemma trace_update_feed: "trace (update_feed rssID g w) = trace w"
  by (simp add: update_feed_def split: option.splits)

lemma logs_RSS_update: "logs (RSS_update e rssID s)"
  unfolding RSS_update_def
  by (intro logs_await logs_call logs_state) (simp add: trace_update_feed)

lemma logs_RSS_findOne: "logs (RSS_findOne e rssID)"
  unfolding RSS_findOne_def
  by (intro logs_await logs_call logs_state) simp

lemma logs_reset: "logs (RSS_resetScrapeFailures e rssID)"
  unfolding RSS_resetScrapeFailures_def
  by (intro logs_await logs_call logs_state) (simp add: trace_update_feed)

lemma logs_incr: "logs (RSS_incrScrapeFailures e rssID)"
  unfolding RSS_incrScrapeFailures_def
  by (intro logs_await logs_call logs_state) (simp add: trace_update_feed)

lemma logs_fetch: "logs (fetch e u)"
  unfolding fetch_def
  by (intro logs_await logs_emit) (simp add: logs_throw logs_resolve split: sum.splits)

lemma logs_parsing: "logs (parsing e j)"
  unfolding parsing_def
  by (intro logs_tryCatch logs_await logs_fetch logs_reset logs_incr logs_resolve logs_throw)

lemma logs_Article_find: "logs (Article_find e rssID pairs)"
  unfolding Article_find_def
  by (intro logs_await logs_call logs_state) simp

lemma logs_Article_count: "logs (Article_count e rssID)"
  unfolding Article_count_def
  by (intro logs_await logs_call logs_state) simp

lemma logs_Article_findOneAndUpdate: "logs (Article_findOneAndUpdate e rssID p)"
  unfolding Article_findOneAndUpdate_def
  by (intro logs_await logs_call) (simp add: logs_def Let_def split: option.splits prod.splits)

lemma logs_upsertArticle: "logs (upsertArticle e rssID p)"
  unfolding upsertArticle_def
  by (intro logs_tryCatch logs_await logs_Article_findOneAndUpdate)
     (simp_all add: logs_resolve logs_throw logs_await logs_emit)

lemma logs_upsertManyArticles: "logs (upsertManyArticles e rssID as)"
  unfolding upsertManyArticles_def
  by (intro logs_await logs_Article_find logs_emit logs_promiseAll) (auto simp: logs_upsertArticle)

lemma logs_OgQueueAddAll: "logs (OgQueueAddAll as)"
  by (induction as) (auto intro!: logs_resolve logs_await logs_emit)

lemma logs_addActivitiesLoop: "logs (addActivitiesLoop e rssID as i)"
  unfolding logs_def
proof
  fix w
  show "prefix (trace w) (trace (snd (addActivitiesLoop e rssID as i w)))"
  proof (induction e rssID as i w rule: addActivitiesLoop.induct)
    case (1 e rssID as i w)
    let ?c = "call e (EvAddActivities rssID (map streamArticle (slice i (i + chunkSize) as)))"
    obtain r w1 where c: "?c w = (r, w1)" by (cases "?c w")
    have k: "prefix (trace w) (trace w1)" using logs_call c by (rule logsD)
    show ?case
    proof (cases "i < length as")
      case False
      then show ?thesis by (simp add: addActivitiesLoop.simps [of e rssID as i w])
    next
      case True
      show ?thesis
      proof (cases r)
        case (Inl err)
        then show ?thesis using True c k by (simp add: addActivitiesLoop.simps [of e rssID as i w])
      next
        case (Inr u)
        have "prefix (trace w1) (trace (snd (addActivitiesLoop e rssID as (i + chunkSize) w1)))"
          using "1.IH" [OF True c [symmetric] Inr] .
        then have "prefix (trace w) (trace (snd (addActivitiesLoop e rssID as (i + chunkSize) w1)))"
          using k by simp
        then show ?thesis using True c Inr
          by (simp add: addActivitiesLoop.simps [of e rssID as i w])
      qed
    qed
  qed
qed

lemma logs_fanOut: "logs (fanOut e rssID rssDoc as)"
  unfolding fanOut_def
  by (intro logs_await logs_emit logs_OgQueueAddAll)
     (simp add: logs_resolve logs_addActivitiesLoop logs_await logs_call)

lemma logs_updateArticles: "logs (updateArticles e rssID rssDoc raws)"
  unfolding updateArticles_def
  by (auto intro!: logs_resolve logs_await logs_emit logs_upsertManyArticles logs_Article_count
      logs_RSS_update logs_fanOut)

lemma logs_afterMarkDone:
  "logs (await (RSS_findOne e rssID)
           (\<lambda>found. case found of
                None \<Rightarrow> resolve ()
              | Some rssDoc \<Rightarrow>
                  await (parsing e j)
                    (\<lambda>rssContent. case rssContent of
                         None \<Rightarrow> resolve ()
                       | Some raws \<Rightarrow> updateArticles e rssID rssDoc raws)))"
  by (intro logs_await logs_RSS_findOne)
     (auto intro!: logs_resolve logs_await logs_parsing logs_updateArticles split: option.splits)

lemmas run_defs = handleRSS_def markDone_def RSS_update_def RSS_findOne_def parsing_def fetch_def
  RSS_resetScrapeFailures_def RSS_incrScrapeFailures_def update_feed_def updateArticles_def
  upsertManyArticles_def Article_find_def matching_def searchData_def articlesToUpsert_def
  upsertArticle_def Article_findOneAndUpdate_def violatesUniqueIndex_def postContentDiffers_def
  update_def Article_count_def normalizeArticles_def normalizeArticle_def fanOut_def
  streamArticle_def slice_def chunkSize_def duplicateKeyError_def newEvents_def
  List.map_filter_def raw_article.extend_def post.fields_def Let_def

lemma newEvents_logs: "logs m \<Longrightarrow> trace (snd (m w)) = trace w @ newEvents w (snd (m w))"
  by (auto simp: logs_def newEvents_def prefix_def dest!: spec [of _ w])

lemma upsertCalls_append: "upsertCalls (xs @ ys) = upsertCalls xs @ upsertCalls ys"
  by (simp add: upsertCalls_def)

lemma upsertCalls_upsertArticle:
  "upsertCalls (trace (snd (upsertArticle e rssID p w))) = upsertCalls (trace w) @ [(rssID, p)]"
  by (simp add: upsertArticle_def Article_findOneAndUpdate_def io_defs upsertCalls_append Let_def
      split: option.splits prod.splits sum.splits)

lemma upsertCalls_promiseAll:
  "upsertCalls (trace (snd (promiseAll (map (\<lambda>article. upsertArticle e rssID article) ps) w)))
     = upsertCalls (trace w) @ map (Pair rssID) ps"
proof (induction ps arbitrary: w)
  case Nil
  then show ?case by simp
next
  case (Cons p ps)
  obtain r w1 where 1: "upsertArticle e rssID p w = (r, w1)" by (cases "upsertArticle e rssID p w")
  obtain rs w2 where 2: "promiseAll (map (\<lambda>article. upsertArticle e rssID article) ps) w1 = (rs, w2)"
    by (cases "promiseAll (map (\<lambda>article. upsertArticle e rssID article) ps) w1")
  have "upsertCalls (trace w2) = upsertCalls (trace w1) @ map (Pair rssID) ps"
    using Cons.IH [of w1] 2 by simp
  moreover have "upsertCalls (trace w1) = upsertCalls (trace w) @ [(rssID, p)]"
    using upsertCalls_upsertArticle [of e rssID p w] 1 by simp
  ultimately show ?case using 1 2 by (simp split: sum.splits)
qed

lemma matching_set:
  "set (matching rssID (searchData as) stored) =
     (\<lambda>a. (url a, contentHash a)) `
       {a \<in> set stored. rss a = rssID \<and> (\<exists>c\<in>set as. url a = url c \<and> contentHash a = contentHash c)}"
  by (auto simp: matching_def searchData_def)

lemma articlesToUpsert_matching:
  "articlesToUpsert (matching rssID (searchData as) stored) as =
     filter (\<lambda>c. url c \<notin> url ` {a \<in> set stored. rss a = rssID \<and>
                      (\<exists>c\<in>set as. url a = url c \<and> contentHash a = contentHash c)} \<and>
                  contentHash c \<notin> contentHash ` {a \<in> set stored. rss a = rssID \<and>
                      (\<exists>c\<in>set as. url a = url c \<and> contentHash a = contentHash c)}) as"
proof -
  let ?M = "{a \<in> set stored. rss a = rssID \<and>
              (\<exists>c\<in>set as. url a = url c \<and> contentHash a = contentHash c)}"
  let ?ex = "matching rssID (searchData as) stored"
  have u: "set (map fst ?ex) = url ` ?M" 
    unfolding set_map matching_set by (simp add: image_image)
  have h: "set (map snd ?ex) = contentHash ` ?M" 
    unfolding set_map matching_set by (simp add: image_image)
  show ?thesis
    unfolding articlesToUpsert_def Let_def u h ..
qed

lemma upsertCalls_upsertManyArticles:
  assumes "fault e (EvArticle_find rssID (searchData as)) = None"
  shows "upsertCalls (trace (snd (upsertManyArticles e rssID as w))) =
           upsertCalls (trace w) @
           map (Pair rssID) (articlesToUpsert (matching rssID (searchData as) (articles w)) as)"
  using assms
  by (simp add: upsertManyArticles_def Article_find_def io_defs upsertCalls_promiseAll
      upsertCalls_append)

lemmas fixture_defs = env0_def job0_def world0_def feed0_def raw1_def post1_def post2_def post3_def
  post4_def stored1_def world1_def

lemma update_first_None: "update_first P g as = None \<longleftrightarrow> \<not> (\<exists>a\<in>set as. P a)"
  by (induction as) (auto split: option.splits)

lemma update_first_Some:
  "update_first P g as = Some (d, as') \<Longrightarrow>
     length as' = length as \<and> d \<in> set as' \<and> (\<exists>a\<in>set as. P a \<and> d = g a)"
proof (induction as arbitrary: as')
  case Nil
  then show ?case by simp
next
  case (Cons a as)
  show ?case
  proof (cases "P a")
    case True
    then show ?thesis using Cons.prems by auto
  next
    case False
    then obtain as2 where 1: "update_first P g as = Some (d, as2)" and 2: "as' = a # as2"
      using Cons.prems by (auto split: option.splits)
    show ?thesis using Cons.IH [OF 1] 2 by auto
  qed
qed

text \<open>The four ways \<open>findOneAndUpdate\<close> ends.\<close>

lemma findOneAndUpdate_fault:
  "fault e (EvArticle_findOneAndUpdate rssID p) = Some err \<Longrightarrow>
   Article_findOneAndUpdate e rssID p w =
     (Inl err, w\<lparr>trace := trace w @ [EvArticle_findOneAndUpdate rssID p]\<rparr>)"
  by (simp add: Article_findOneAndUpdate_def io_defs)

lemma findOneAndUpdate_update:
  assumes "fault e (EvArticle_findOneAndUpdate rssID p) = None"
    and "update_first (\<lambda>a. rss a = rssID \<and> url a = url p \<and> postContentDiffers p a)
           (\<lambda>a. update rssID p (oid a)) (articles w) = Some (d, as')"
  shows "Article_findOneAndUpdate e rssID p w =
     (Inr \<lparr>rr_value = d, updatedExisting = True\<rparr>,
      w\<lparr>articles := as', trace := trace w @ [EvArticle_findOneAndUpdate rssID p]\<rparr>)"
  using assms by (simp add: Article_findOneAndUpdate_def io_defs)

lemma findOneAndUpdate_duplicate:
  assumes "fault e (EvArticle_findOneAndUpdate rssID p) = None"
    and "\<not> (\<exists>a\<in>set (articles w). rss a = rssID \<and> url a = url p \<and> postContentDiffers p a)"
    and "\<exists>a\<in>set (articles w). rss a = rssID \<and> url a = url p"
  shows "Article_findOneAndUpdate e rssID p w =
     (Inl (Error (Some duplicateKeyError) ''E11000 duplicate key error''),
      w\<lparr>trace := trace w @ [EvArticle_findOneAndUpdate rssID p]\<rparr>)"
proof -
  have "update_first (\<lambda>a. rss a = rssID \<and> url a = url p \<and> postContentDiffers p a)
           (\<lambda>a. update rssID p (oid a)) (articles w) = None"
    using assms(2) by (simp add: update_first_None)
  moreover have "violatesUniqueIndex rssID (url p) (articles w)"
    using assms(3) by (simp add: violatesUniqueIndex_def list_ex_iff)
  ultimately show ?thesis
    using assms(1) by (simp add: Article_findOneAndUpdate_def io_defs)
qed

lemma findOneAndUpdate_insert:
  assumes "fault e (EvArticle_findOneAndUpdate rssID p) = None"
    and "\<not> (\<exists>a\<in>set (articles w). rss a = rssID \<and> url a = url p)"
  shows "Article_findOneAndUpdate e rssID p w =
     (Inr \<lparr>rr_value = update rssID p (ObjectId e (nextId w)), updatedExisting = False\<rparr>,
      w\<lparr>articles := articles w @ [update rssID p (ObjectId e (nextId w))],
        nextId := Suc (nextId w),
        trace := trace w @ [EvArticle_findOneAndUpdate rssID p]\<rparr>)"
proof -
  have "update_first (\<lambda>a. rss a = rssID \<and> url a = url p \<and> postContentDiffers p a)
           (\<lambda>a. update rssID p (oid a)) (articles w) = None"
    using assms(2) by (auto simp add: update_first_None)
  moreover have "\<not> violatesUniqueIndex rssID (url p) (articles w)"
    using assms(2) by (simp add: violatesUniqueIndex_def list_ex_iff)
  ultimately show ?thesis
    using assms(1) by (simp add: Article_findOneAndUpdate_def io_defs Let_def)
qed








lemma OgQueueAddAll_run:
  "OgQueueAddAll as w = (Inr (), w\<lparr>trace := trace w @ map (\<lambda>a. EvOgQueueAdd (url a)) as\<rparr>)"
  by (induction as arbitrary: w) (simp_all add: io_defs)

lemma slice_chunk: "slice i (i + n) xs = take n (drop i xs)"
  by (simp add: slice_def)

lemma drop_chunk: "take n (drop i xs) @ drop (i + n) xs = drop i xs"
  by (metis add.commute append_take_drop_id drop_drop)

text \<open>The shape of the loop's log: one call per chunk.\<close>

lemma addActivitiesLoop_shape:
  "addActivitiesLoop e rssID as i w = (r, w') \<Longrightarrow>
   \<exists>cs. trace w' = trace w @ map (EvAddActivities rssID) cs \<and>
        (\<forall>c\<in>set cs. length c \<le> chunkSize \<and> c \<noteq> []) \<and>
        prefix (concat cs) (map streamArticle (drop i as)) \<and>
        (r = Inr () \<longrightarrow> concat cs = map streamArticle (drop i as)) \<and>
        ((\<forall>c. fault e (EvAddActivities rssID c) = None) \<longrightarrow> r = Inr ()) \<and>
        (\<forall>err. r = Inl err \<longrightarrow> cs \<noteq> [] \<and> fault e (EvAddActivities rssID (last cs)) = Some err)"
proof (induction e rssID as i w arbitrary: r w' rule: addActivitiesLoop.induct)
  case (1 e rssID as i w)
  let ?chunk = "map streamArticle (slice i (i + chunkSize) as)"
  let ?c = "call e (EvAddActivities rssID ?chunk)"
  obtain r1 wa where c: "?c w = (r1, wa)" by (cases "?c w")
  have ta: "trace wa = trace w @ [EvAddActivities rssID ?chunk]"
    using c by (auto simp: io_defs split: option.splits)
  show ?case
  proof (cases "i < length as")
    case False
    then have "r = Inr ()" "w' = w" using "1.prems"
      by (simp_all add: addActivitiesLoop.simps [of e rssID as i w])
    then show ?thesis using False by (intro exI [of _ "[]"]) simp
  next
    case True
    have len: "length ?chunk \<le> chunkSize" "?chunk \<noteq> []"
      using True by (simp_all add: slice_chunk chunkSize_def)
    have split: "?chunk @ map streamArticle (drop (i + chunkSize) as) = map streamArticle (drop i as)"
      unfolding slice_chunk map_append [symmetric] drop_chunk ..
    show ?thesis
    proof (cases r1)
      case (Inl err)
      then have r: "r = Inl err" "w' = wa" using True c "1.prems"
        by (simp_all add: addActivitiesLoop.simps [of e rssID as i w])
      have f: "fault e (EvAddActivities rssID ?chunk) = Some err"
        using c Inl by (auto simp: io_defs split: option.splits)
      have "prefix ?chunk (map streamArticle (drop i as))"
        using split by (metis prefixI)
      then show ?thesis using r ta len f
        by (intro exI [of _ "[?chunk]"]) auto
    next
      case (Inr u)
      then have run: "addActivitiesLoop e rssID as (i + chunkSize) wa = (r, w')"
        using True c "1.prems" by (simp add: addActivitiesLoop.simps [of e rssID as i w])
      obtain cs where cs: "trace w' = trace wa @ map (EvAddActivities rssID) cs"
        "\<forall>c\<in>set cs. length c \<le> chunkSize \<and> c \<noteq> []"
        "prefix (concat cs) (map streamArticle (drop (i + chunkSize) as))"
        "r = Inr () \<longrightarrow> concat cs = map streamArticle (drop (i + chunkSize) as)"
        "(\<forall>c. fault e (EvAddActivities rssID c) = None) \<longrightarrow> r = Inr ()"
        "\<forall>err. r = Inl err \<longrightarrow> cs \<noteq> [] \<and> fault e (EvAddActivities rssID (last cs)) = Some err"
        using "1.IH" [OF True c [symmetric] Inr run] by blast
      have "prefix (?chunk @ concat cs) (?chunk @ map streamArticle (drop (i + chunkSize) as))"
        using cs(3) by simp
      then have p: "prefix (concat (?chunk # cs)) (map streamArticle (drop i as))"
        unfolding split by simp
      have q: "r = Inr () \<longrightarrow> concat (?chunk # cs) = map streamArticle (drop i as)"
        using cs(4) split by simp
      show ?thesis
        using ta cs(1,2,5,6) len p q by (intro exI [of _ "?chunk # cs"]) auto
    qed
  qed
qed

text \<open>The shape of the dispatcher's log.\<close>

lemma fanOut_shape:
  assumes "fanOut e rssID rssDoc as w = (r, w')"
  shows "\<exists>cs tail.
      trace w' = trace w @
         EvStatsdIncrement ''winds.handle_rss.articles.upserted'' (length as) #
         map (\<lambda>a. EvOgQueueAdd (url a)) as @ map (EvAddActivities rssID) cs @ tail \<and>
      (\<forall>c\<in>set cs. length c \<le> chunkSize \<and> c \<noteq> []) \<and>
      prefix (concat cs) (map streamArticle as) \<and>
      (tail = [] \<or> tail = [EvSendRssFeedToCollections rssID rssDoc] \<and> concat cs = map streamArticle as) \<and>
      (as = [] \<longrightarrow> cs = [] \<and> tail = []) \<and>
      (r = Inr () \<longrightarrow> as \<noteq> [] \<longrightarrow> tail = [EvSendRssFeedToCollections rssID rssDoc]) \<and>
      ((\<forall>c. fault e (EvAddActivities rssID c) = None) \<longrightarrow> as \<noteq> [] \<longrightarrow>
          tail = [EvSendRssFeedToCollections rssID rssDoc] \<and>
          (fault e (EvSendRssFeedToCollections rssID rssDoc) = None \<longrightarrow> r = Inr ()))"
proof (cases "as = []")
  case True
  then have "trace w' = trace w @ [EvStatsdIncrement ''winds.handle_rss.articles.upserted'' 0]"
    using assms by (auto simp: fanOut_def io_defs)
  then show ?thesis using True by (intro exI [of _ "[]"]) simp
next
  case False
  let ?wa = "w\<lparr>trace := trace w @
         EvStatsdIncrement ''winds.handle_rss.articles.upserted'' (length as) #
         map (\<lambda>a. EvOgQueueAdd (url a)) as\<rparr>"
  obtain r1 wb where loop: "addActivitiesLoop e rssID as 0 ?wa = (r1, wb)"
    by (cases "addActivitiesLoop e rssID as 0 ?wa")
  obtain cs where cs: "trace wb = trace ?wa @ map (EvAddActivities rssID) cs"
        "\<forall>c\<in>set cs. length c \<le> chunkSize \<and> c \<noteq> []"
        "prefix (concat cs) (map streamArticle (drop 0 as))"
        "r1 = Inr () \<longrightarrow> concat cs = map streamArticle (drop 0 as)"
        "(\<forall>c. fault e (EvAddActivities rssID c) = None) \<longrightarrow> r1 = Inr ()"
    using addActivitiesLoop_shape [OF loop] by blast
  have run: "fanOut e rssID rssDoc as w =
      (case r1 of Inl err \<Rightarrow> (Inl err, wb)
       | Inr u \<Rightarrow> call e (EvSendRssFeedToCollections rssID rssDoc) wb)"
    using False loop
    by (simp add: fanOut_def await_def [of "emit _"] emit_def await_def [of "OgQueueAddAll _"]
        OgQueueAddAll_run await_def [of "addActivitiesLoop _ _ _ _"] split: sum.splits)
  show ?thesis
  proof (cases r1)
    case (Inl err)
    then have "r = Inl err" "w' = wb" using run assms by simp_all
    then show ?thesis using cs False Inl
      by (intro exI [of _ cs] exI [of _ "[]"]) auto
  next
    case (Inr u)
    then have "call e (EvSendRssFeedToCollections rssID rssDoc) wb = (r, w')"
      using run assms by simp
    then have "trace w' = trace wb @ [EvSendRssFeedToCollections rssID rssDoc]"
      and "fault e (EvSendRssFeedToCollections rssID rssDoc) = None \<longrightarrow> r = Inr ()"
      by (auto simp: io_defs split: option.splits)
    then show ?thesis using cs False Inr
      by (intro exI [of _ cs] exI [of _ "[EvSendRssFeedToCollections rssID rssDoc]"]) auto
  qed
qed

lemma updatedArticles_append:
  "updatedArticles (rs @ rs') = updatedArticles rs @ updatedArticles rs'"
  by (induction rs rule: updatedArticles.induct) simp_all

lemma ogCalls_append: "ogCalls (xs @ ys) = ogCalls xs @ ogCalls ys"
  by (simp add: ogCalls_def)

lemma ogCalls_EvOgQueueAdd: "ogCalls (map (\<lambda>a. EvOgQueueAdd (url a)) as) = map url as"
  by (induction as) simp_all

lemma ogCalls_EvAddActivities: "ogCalls (map (EvAddActivities rssID) cs) = []"
  by (induction cs) simp_all

lemma activityChunks_append: "activityChunks (xs @ ys) = activityChunks xs @ activityChunks ys"
  by (simp add: activityChunks_def)

lemma activityChunks_EvOgQueueAdd: "activityChunks (map (\<lambda>a. EvOgQueueAdd (url a)) as) = []"
  by (induction as) simp_all

lemma activityChunks_EvAddActivities: "activityChunks (map (EvAddActivities rssID) cs) = cs"
  by (induction cs) simp_all

lemma newEvents_append: "trace w' = trace w @ evs \<Longrightarrow> newEvents w w' = evs"
  by (simp add: newEvents_def)

lemma fanOut_ogCalls:
  "ogCalls (newEvents w (snd (fanOut e rssID rssDoc as w))) = map url as"
proof -
  obtain r w' where run: "fanOut e rssID rssDoc as w = (r, w')"
    by (cases "fanOut e rssID rssDoc as w")
  obtain cs tail where "trace w' = trace w @
         EvStatsdIncrement ''winds.handle_rss.articles.upserted'' (length as) #
         map (\<lambda>a. EvOgQueueAdd (url a)) as @ map (EvAddActivities rssID) cs @ tail"
    and "tail = [] \<or> tail = [EvSendRssFeedToCollections rssID rssDoc] \<and> concat cs = map streamArticle as"
    using fanOut_shape [OF run] by blast
  then show ?thesis using run
    by (auto simp: newEvents_append ogCalls_append ogCalls_EvOgQueueAdd ogCalls_EvAddActivities)
qed

lemma fanOut_activityChunks:
  "prefix (concat (activityChunks (newEvents w (snd (fanOut e rssID rssDoc as w)))))
     (map streamArticle as)"
proof -
  obtain r w' where run: "fanOut e rssID rssDoc as w = (r, w')"
    by (cases "fanOut e rssID rssDoc as w")
  obtain cs tail where "trace w' = trace w @
         EvStatsdIncrement ''winds.handle_rss.articles.upserted'' (length as) #
         map (\<lambda>a. EvOgQueueAdd (url a)) as @ map (EvAddActivities rssID) cs @ tail"
    and "tail = [] \<or> tail = [EvSendRssFeedToCollections rssID rssDoc] \<and> concat cs = map streamArticle as"
    and "prefix (concat cs) (map streamArticle as)"
    using fanOut_shape [OF run] by blast
  then show ?thesis using run
    by (auto simp: newEvents_append activityChunks_append activityChunks_EvOgQueueAdd
        activityChunks_EvAddActivities)
qed


lemma upsertArticle_cases:
  "upsertArticle e rssID p w =
     (case Article_findOneAndUpdate e rssID p w of
        (Inr raw, w') \<Rightarrow>
          (if updatedExisting raw then (Inr Undefined, w') else (Inr (Doc (rr_value raw)), w'))
      | (Inl err, w') \<Rightarrow>
          (if err_code err = Some duplicateKeyError
           then (Inr Null,
                 w'\<lparr>trace := trace w' @ [EvStatsdIncrement ''winds.handle_rss.articles.ignored'' 1]\<rparr>)
           else (Inl err, w')))"
  by (simp add: upsertArticle_def tryCatch_def await_def resolve_def throw_def emit_def
      split: prod.splits sum.splits)

lemma findOneAndUpdate_cases:
  "Article_findOneAndUpdate e rssID p w =
     (let w1 = w\<lparr>trace := trace w @ [EvArticle_findOneAndUpdate rssID p]\<rparr> in
      case fault e (EvArticle_findOneAndUpdate rssID p) of
        Some err \<Rightarrow> (Inl err, w1)
      | None \<Rightarrow>
         (case update_first (\<lambda>a. rss a = rssID \<and> url a = url p \<and> postContentDiffers p a)
                 (\<lambda>a. update rssID p (oid a)) (articles w) of
            Some (d, as') \<Rightarrow>
              (Inr \<lparr>rr_value = d, updatedExisting = True\<rparr>, w1\<lparr>articles := as'\<rparr>)
          | None \<Rightarrow>
              if violatesUniqueIndex rssID (url p) (articles w)
              then (Inl (Error (Some duplicateKeyError) ''E11000 duplicate key error''), w1)
              else
                (Inr \<lparr>rr_value = update rssID p (ObjectId e (nextId w)), updatedExisting = False\<rparr>,
                 w1\<lparr>articles := articles w @ [update rssID p (ObjectId e (nextId w))],
                    nextId := Suc (nextId w)\<rparr>)))"
  by (simp add: Article_findOneAndUpdate_def io_defs Let_def split: option.splits)

lemma upsertArticle_Doc:
  assumes "upsertArticle e rssID p w = (Inr (Doc d), w')"
  shows "d = update rssID p (ObjectId e (nextId w))"
proof -
  obtain r wa where f: "Article_findOneAndUpdate e rssID p w = (r, wa)"
    by (cases "Article_findOneAndUpdate e rssID p w")
  then obtain raw where r: "r = Inr raw" "\<not> updatedExisting raw" "d = rr_value raw"
    using assms by (auto simp add: upsertArticle_cases split: sum.splits if_splits)
  show ?thesis
    using f r unfolding findOneAndUpdate_cases Let_def
    by (auto split: option.splits if_splits)
qed

lemma updatedArticles_set: "d \<in> set (updatedArticles rs) \<longleftrightarrow> Doc d \<in> set rs"
  by (induction rs rule: updatedArticles.induct) auto


section \<open>Calls that a projection does not see\<close>

lemma silent_emit: "q ev = [] \<Longrightarrow> keeps (\<lambda>w. concat (map q (trace w))) (emit ev)"
  by (simp add: keeps_def emit_def)

lemma silent_call: "q ev = [] \<Longrightarrow> keeps (\<lambda>w. concat (map q (trace w))) (call e ev)"
  unfolding call_def
  by (intro keeps_await silent_emit) (simp_all add: keeps_throw keeps_resolve split: option.splits)

lemma silent_state:
  "(\<And>w. trace (g w) = trace w) \<Longrightarrow> keeps (\<lambda>w. concat (map q (trace w))) (\<lambda>w. (x w, g w))"
  by (simp add: keeps_def)

lemma silent_RSS_update:
  "q (EvRSS_update rssID s) = [] \<Longrightarrow> keeps (\<lambda>w. concat (map q (trace w))) (RSS_update e rssID s)"
  unfolding RSS_update_def
  by (intro keeps_await silent_call silent_state) (simp_all add: trace_update_feed)

lemma silent_RSS_findOne:
  "q (EvRSS_findOne rssID) = [] \<Longrightarrow> keeps (\<lambda>w. concat (map q (trace w))) (RSS_findOne e rssID)"
  unfolding RSS_findOne_def
  by (intro keeps_await silent_call silent_state) simp_all

lemma silent_reset:
  "q (EvRSS_resetScrapeFailures rssID) = [] \<Longrightarrow>
   keeps (\<lambda>w. concat (map q (trace w))) (RSS_resetScrapeFailures e rssID)"
  unfolding RSS_resetScrapeFailures_def
  by (intro keeps_await silent_call silent_state) (simp_all add: trace_update_feed)

lemma silent_incr:
  "q (EvRSS_incrScrapeFailures rssID) = [] \<Longrightarrow>
   keeps (\<lambda>w. concat (map q (trace w))) (RSS_incrScrapeFailures e rssID)"
  unfolding RSS_incrScrapeFailures_def
  by (intro keeps_await silent_call silent_state) (simp_all add: trace_update_feed)

lemma silent_fetch:
  "q (EvParseFeed u) = [] \<Longrightarrow> keeps (\<lambda>w. concat (map q (trace w))) (fetch e u)"
  unfolding fetch_def
  by (intro keeps_await silent_emit) (simp_all add: keeps_throw keeps_resolve split: sum.splits)

lemma silent_parsing:
  assumes "q (EvParseFeed (job_url j)) = []"
    and "q (EvRSS_resetScrapeFailures (job_rss j)) = []"
    and "q (EvRSS_incrScrapeFailures (job_rss j)) = []"
  shows "keeps (\<lambda>w. concat (map q (trace w))) (parsing e j)"
  unfolding parsing_def
  by (intro keeps_tryCatch keeps_await silent_fetch silent_reset silent_incr keeps_resolve
      keeps_throw assms)

lemma silent_Article_find:
  "q (EvArticle_find rssID pairs) = [] \<Longrightarrow>
   keeps (\<lambda>w. concat (map q (trace w))) (Article_find e rssID pairs)"
  unfolding Article_find_def
  by (intro keeps_await silent_call silent_state) simp_all

lemma silent_Article_count:
  "q (EvArticle_count rssID) = [] \<Longrightarrow>
   keeps (\<lambda>w. concat (map q (trace w))) (Article_count e rssID)"
  unfolding Article_count_def
  by (intro keeps_await silent_call silent_state) simp_all

lemma silent_findOneAndUpdate:
  "q (EvArticle_findOneAndUpdate rssID p) = [] \<Longrightarrow>
   keeps (\<lambda>w. concat (map q (trace w))) (Article_findOneAndUpdate e rssID p)"
  unfolding keeps_def findOneAndUpdate_cases Let_def
  by (simp split: option.splits prod.splits)

lemma silent_upsertArticle:
  assumes "q (EvArticle_findOneAndUpdate rssID p) = []"
    and "q (EvStatsdIncrement ''winds.handle_rss.articles.ignored'' 1) = []"
  shows "keeps (\<lambda>w. concat (map q (trace w))) (upsertArticle e rssID p)"
proof -
  have "keeps (\<lambda>w. concat (map q (trace w)))
          (await (emit (EvStatsdIncrement ''winds.handle_rss.articles.ignored'' 1))
             (\<lambda>_. resolve Null))"
    by (intro keeps_await silent_emit keeps_resolve assms(2))
  then show ?thesis
    unfolding upsertArticle_def
    by (intro keeps_tryCatch keeps_await silent_findOneAndUpdate assms(1))
       (simp_all only: keeps_resolve keeps_throw if_split simp_thms)
qed

lemma silent_upsertManyArticles:
  assumes "\<And>f pairs. q (EvArticle_find f pairs) = []"
    and "\<And>f p. q (EvArticle_findOneAndUpdate f p) = []"
    and "\<And>s n. q (EvStatsdIncrement s n) = []"
  shows "keeps (\<lambda>w. concat (map q (trace w))) (upsertManyArticles e rssID as)"
  unfolding upsertManyArticles_def
  by (intro keeps_await silent_Article_find silent_emit keeps_promiseAll assms)
     (auto intro!: silent_upsertArticle assms)

section \<open>The feeds under the article calls\<close>

lemma keeps_feeds_findOneAndUpdate: "keeps feeds (Article_findOneAndUpdate e rssID p)"
  unfolding keeps_def findOneAndUpdate_cases Let_def
  by (simp split: option.splits prod.splits)

lemma keeps_feeds_upsertArticle: "keeps feeds (upsertArticle e rssID p)"
  unfolding upsertArticle_def
  by (intro keeps_tryCatch keeps_await keeps_feeds_findOneAndUpdate)
     (simp_all add: keeps_resolve keeps_throw keeps_await keeps_emit)

lemma keeps_feeds_upsertManyArticles: "keeps feeds (upsertManyArticles e rssID as)"
  unfolding upsertManyArticles_def
  by (intro keeps_await keeps_Article_find keeps_emit keeps_promiseAll)
     (auto intro!: keeps_feeds_upsertArticle)

lemma keeps_comp: "keeps obs m \<Longrightarrow> keeps (\<lambda>w. g (obs w)) m"
  by (simp add: keeps_def)

section \<open>The steps of handleRSS\<close>

lemma handleRSS_cases:
  "handleRSS e j w =
     (case markDone e (job_rss j) w of
        (Inl err, wa) \<Rightarrow> (Inl err, wa)
      | (Inr u, wa) \<Rightarrow>
          (case RSS_findOne e (job_rss j) wa of
             (Inl err, wb) \<Rightarrow> (Inl err, wb)
           | (Inr None, wb) \<Rightarrow> (Inr (), wb)
           | (Inr (Some rssDoc), wb) \<Rightarrow>
               (case parsing e j wb of
                  (Inl err, wc) \<Rightarrow> (Inl err, wc)
                | (Inr None, wc) \<Rightarrow> (Inr (), wc)
                | (Inr (Some raws), wc) \<Rightarrow> updateArticles e (job_rss j) rssDoc raws wc)))"
  by (simp add: handleRSS_def Let_def await_def resolve_def
      split: prod.splits sum.splits option.splits)

lemma parsing_Inr:
  "parsing e j w = (Inr res, w') \<Longrightarrow> ParseFeed e (job_url j) = Inr res"
  by (auto simp add: parsing_def fetch_def tryCatch_def await_def resolve_def throw_def emit_def
      split: prod.splits sum.splits)

text \<open>
  An observation that the acknowledgement, the existence check and the parser step
  keep: either it is the same after the job, or the job has reached
  \<open>updateArticles\<close> with it unchanged.
\<close>

lemma handleRSS_split:
  assumes "keeps obs (markDone e (job_rss j))" and "keeps obs (RSS_findOne e (job_rss j))"
    and "keeps obs (parsing e j)"
  shows "obs (snd (handleRSS e j w)) = obs w \<or>
         (\<exists>rssDoc raws wc. obs wc = obs w \<and> ParseFeed e (job_url j) = Inr (Some raws) \<and>
              handleRSS e j w = updateArticles e (job_rss j) rssDoc raws wc)"
proof -
  obtain r1 wa where 1: "markDone e (job_rss j) w = (r1, wa)"
    by (cases "markDone e (job_rss j) w")
  obtain r2 wb where 2: "RSS_findOne e (job_rss j) wa = (r2, wb)"
    by (cases "RSS_findOne e (job_rss j) wa")
  obtain r3 wc where 3: "parsing e j wb = (r3, wc)"
    by (cases "parsing e j wb")
  have a: "obs wa = obs w" using assms(1) 1 by (rule keepsD)
  have b: "obs wb = obs w" using keepsD [OF assms(2) 2] a by simp
  have c: "obs wc = obs w" using keepsD [OF assms(3) 3] b by simp
  show ?thesis
  proof (cases r1)
    case Inl
    then show ?thesis using 1 a by (simp add: handleRSS_cases)
  next
    case (Inr u)
    note r1 = this
    show ?thesis
    proof (cases r2)
      case Inl
      then show ?thesis using 1 2 r1 b by (simp add: handleRSS_cases)
    next
      case (Inr found)
      note r2 = this
      show ?thesis
      proof (cases found)
        case None
        then show ?thesis using 1 2 r1 r2 b by (simp add: handleRSS_cases)
      next
        case (Some rssDoc)
        note found = this
        show ?thesis
        proof (cases r3)
          case Inl
          then show ?thesis using 1 2 3 r1 r2 found c by (simp add: handleRSS_cases)
        next
          case (Inr res)
          note r3 = this
          show ?thesis
          proof (cases res)
            case None
            then show ?thesis using 1 2 3 r1 r2 r3 found c by (simp add: handleRSS_cases)
          next
            case (Some raws)
            have "ParseFeed e (job_url j) = Inr (Some raws)"
              using 3 r3 Some parsing_Inr by simp
            moreover have "handleRSS e j w = updateArticles e (job_rss j) rssDoc raws wc"
              using 1 2 3 r1 r2 r3 found Some by (simp add: handleRSS_cases)
            ultimately show ?thesis using c by (intro disjI2 exI conjI)
          qed
        qed
      qed
    qed
  qed
qed

section \<open>The parser step\<close>

lemma parsing_success:
  assumes "ParseFeed e (job_url j) = Inr res"
    and "fault e (EvRSS_resetScrapeFailures (job_rss j)) = None"
  shows "parsing e j w =
     (Inr res,
      update_feed (job_rss j) (\<lambda>f. f\<lparr>consecutiveScrapeFailures := 0\<rparr>)
        (w\<lparr>trace := trace w @ [EvParseFeed (job_url j), EvRSS_resetScrapeFailures (job_rss j)]\<rparr>))"
  using assms
  by (simp add: parsing_def fetch_def RSS_resetScrapeFailures_def io_defs)

lemma parsing_failure:
  assumes "ParseFeed e (job_url j) = Inl err"
    and "fault e (EvRSS_incrScrapeFailures (job_rss j)) = None"
  shows "parsing e j w =
     (Inl err,
      update_feed (job_rss j)
        (\<lambda>f. f\<lparr>consecutiveScrapeFailures := consecutiveScrapeFailures f + 1\<rparr>)
        (w\<lparr>trace := trace w @ [EvParseFeed (job_url j), EvRSS_incrScrapeFailures (job_rss j)]\<rparr>))"
  using assms
  by (simp add: parsing_def fetch_def RSS_incrScrapeFailures_def io_defs)

text \<open>The job on a feed that exists, up to the parser step.\<close>

lemma handleRSS_acknowledged:
  assumes "feeds w (job_rss j) = Some f"
    and "fault e (EvRSS_update (job_rss j) (SetLastScrapedIsParsing (now e) False)) = None"
    and "fault e (EvRSS_findOne (job_rss j)) = None"
  shows "handleRSS e j w =
     (case parsing e j
        (w\<lparr>feeds := (feeds w)(job_rss j \<mapsto> f\<lparr>lastScraped := now e, isParsing := False\<rparr>),
           trace := trace w @ [EvRSS_update (job_rss j) (SetLastScrapedIsParsing (now e) False),
                               EvRSS_findOne (job_rss j)]\<rparr>) of
        (Inl err, wc) \<Rightarrow> (Inl err, wc)
      | (Inr None, wc) \<Rightarrow> (Inr (), wc)
      | (Inr (Some raws), wc) \<Rightarrow>
          updateArticles e (job_rss j) (f\<lparr>lastScraped := now e, isParsing := False\<rparr>) raws wc)"
  using assms
  by (simp add: handleRSS_cases markDone_def RSS_update_def RSS_findOne_def io_defs update_feed_def)

lemma keeps_failures_updateArticles:
  "keeps (\<lambda>w. map_option consecutiveScrapeFailures (feeds w k)) (updateArticles e rssID rssDoc raws)"
proof -
  let ?obs = "\<lambda>w. map_option consecutiveScrapeFailures (feeds w k)"
  have u: "keeps ?obs (RSS_update e rssID (SetPostCount n))" for n
    unfolding RSS_update_def
    by (intro keeps_await keeps_call keeps_state) (simp_all add: update_feed_def split: option.splits)
  have m: "keeps ?obs (upsertManyArticles e rssID as)" for as
    using keeps_feeds_upsertManyArticles by (rule keeps_comp)
  show ?thesis
    unfolding updateArticles_def
    by (auto intro!: keeps_resolve keeps_await keeps_emit m keeps_Article_count u keeps_fanOut)
qed

section \<open>Inserted documents\<close>

lemma keeps_pair: "keeps f m \<Longrightarrow> keeps g m \<Longrightarrow> keeps (\<lambda>w. (f w, g w)) m"
  by (simp add: keeps_def)

lemma logs_handleRSS: "logs (handleRSS e j)"
  unfolding handleRSS_def Let_def markDone_def
  by (intro logs_await logs_RSS_update)
     (auto intro!: logs_await logs_RSS_findOne logs_resolve logs_parsing logs_updateArticles
       split: option.splits)

text \<open>\<open>upsertArticle\<close> adds a document exactly when it returns one.\<close>

lemma upsertArticle_length:
  assumes "upsertArticle e rssID p w = (r, w')"
  shows "length (articles w') = length (articles w) + length (updatedArticles (case r of Inl err \<Rightarrow> [] | Inr x \<Rightarrow> [x]))"
proof -
  let ?P = "\<lambda>a. rss a = rssID \<and> url a = url p \<and> postContentDiffers p a"
  let ?g = "\<lambda>a. update rssID p (oid a)"
  show ?thesis
  proof (cases "fault e (EvArticle_findOneAndUpdate rssID p)")
    case (Some err)
    then show ?thesis using assms
      by (auto simp add: upsertArticle_cases findOneAndUpdate_cases Let_def split: if_splits)
  next
    case None
    note nofault = this
    show ?thesis
    proof (cases "update_first ?P ?g (articles w)")
      case (Some das)
      obtain d as' where das: "das = (d, as')" by (cases das)
      have "length as' = length (articles w)"
        using update_first_Some [of ?P ?g "articles w" d as'] Some das by simp
      then show ?thesis using assms nofault Some das
        by (auto simp add: upsertArticle_cases findOneAndUpdate_cases Let_def)
    next
      case None
      then show ?thesis using assms nofault
        by (auto simp add: upsertArticle_cases findOneAndUpdate_cases Let_def split: if_splits)
    qed
  qed
qed

lemma promiseAll_length:
  "promiseAll (map (\<lambda>article. upsertArticle e rssID article) ps) w = (Inr rs, w') \<Longrightarrow>
   length (articles w') = length (articles w) + length (updatedArticles rs)"
proof (induction ps arbitrary: w rs w')
  case Nil
  then show ?case by simp
next
  case (Cons p ps)
  obtain r wa where 1: "upsertArticle e rssID p w = (r, wa)"
    by (cases "upsertArticle e rssID p w")
  obtain rs' wb where 2: "promiseAll (map (\<lambda>article. upsertArticle e rssID article) ps) wa = (rs', wb)"
    by (cases "promiseAll (map (\<lambda>article. upsertArticle e rssID article) ps) wa")
  obtain x xs where r: "r = Inr x" and rs': "rs' = Inr xs" and rs: "rs = x # xs" and w': "w' = wb"
    using Cons.prems 1 2 by (auto split: sum.splits)
  have a: "length (articles wa) = length (articles w) + length (updatedArticles [x])"
    using upsertArticle_length [OF 1] r by simp
  have b: "length (articles wb) = length (articles wa) + length (updatedArticles xs)"
    using Cons.IH [of wa xs wb] 2 rs' by simp
  have "updatedArticles (x # xs) = updatedArticles [x] @ updatedArticles xs"
    using updatedArticles_append [of "[x]" xs] by simp
  then show ?case using a b rs w' by simp
qed

lemma upsertManyArticles_length:
  assumes "upsertManyArticles e rssID as w = (Inr rs, w')"
  shows "length (articles w') = length (articles w) + length (updatedArticles rs)"
proof -
  let ?ps = "articlesToUpsert (matching rssID (searchData as) (articles w)) as"
  let ?wa = "w\<lparr>trace := trace w @ [EvArticle_find rssID (searchData as),
        EvStatsdIncrement ''winds.handle_rss.articles.already_in_mongo''
          (length (matching rssID (searchData as) (articles w)))]\<rparr>"
  have nofault: "fault e (EvArticle_find rssID (searchData as)) = None"
    using assms
    by (cases "fault e (EvArticle_find rssID (searchData as))")
       (auto simp add: upsertManyArticles_def Article_find_def io_defs)
  have "promiseAll (map (\<lambda>article. upsertArticle e rssID article) ?ps) ?wa = (Inr rs, w')"
    using assms nofault by (simp add: upsertManyArticles_def Article_find_def io_defs)
  then show ?thesis using promiseAll_length [of e rssID ?ps ?wa rs w'] by simp
qed

lemma fanOut_nothing:
  "fanOut e rssID rssDoc [] w =
     (Inr (), w\<lparr>trace := trace w @ [EvStatsdIncrement ''winds.handle_rss.articles.upserted'' 0]\<rparr>)"
  by (simp add: fanOut_def io_defs)

text \<open>The steps of \<open>updateArticles\<close>.\<close>

lemma updateArticles_cases:
  "updateArticles e rssID rssDoc raws w =
     (if raws = [] then (Inr (), w)
      else
        (case upsertManyArticles e rssID (normalizeArticles e raws)
                (w\<lparr>trace := trace w @
                   [EvStatsdIncrement ''winds.handle_rss.articles.parsed'' (length raws)]\<rparr>) of
           (Inl err, wa) \<Rightarrow> (Inl err, wa)
         | (Inr allArticles, wa) \<Rightarrow>
             (case Article_count e rssID wa of
                (Inl err, wb) \<Rightarrow> (Inl err, wb)
              | (Inr n, wb) \<Rightarrow>
                  (case RSS_update e rssID (SetPostCount n) wb of
                     (Inl err, wc) \<Rightarrow> (Inl err, wc)
                   | (Inr u, wc) \<Rightarrow> fanOut e rssID rssDoc (updatedArticles allArticles) wc))))"
  by (simp add: updateArticles_def await_def resolve_def emit_def
      split: prod.splits sum.splits)

lemma silent_streamCalls_upsertManyArticles:
  "keeps (\<lambda>w. streamCalls (trace w)) (upsertManyArticles e rssID as)"
  unfolding streamCalls_def by (rule silent_upsertManyArticles) simp_all

lemma updateArticles_no_insert:
  assumes "length (articles (snd (updateArticles e rssID rssDoc raws w))) = length (articles w)"
  shows "streamCalls (trace (snd (updateArticles e rssID rssDoc raws w))) = streamCalls (trace w)"
proof (cases "raws = []")
  case True
  then show ?thesis by (simp add: updateArticles_cases)
next
  case False
  let ?w0 = "w\<lparr>trace := trace w @
                   [EvStatsdIncrement ''winds.handle_rss.articles.parsed'' (length raws)]\<rparr>"
  obtain r1 wa where 1: "upsertManyArticles e rssID (normalizeArticles e raws) ?w0 = (r1, wa)"
    by (cases "upsertManyArticles e rssID (normalizeArticles e raws) ?w0")
  obtain r2 wb where 2: "Article_count e rssID wa = (r2, wb)"
    by (cases "Article_count e rssID wa")
  have sa: "streamCalls (trace wa) = streamCalls (trace w)"
    using keepsD [OF silent_streamCalls_upsertManyArticles 1] by (simp add: streamCalls_append)
  have sb: "streamCalls (trace wb) = streamCalls (trace wa)"
    using keepsD [OF silent_Article_count 2, of streamCall] by (simp add: streamCalls_def)
  have ab: "articles wb = articles wa"
    using keepsD [OF keeps_Article_count 2, of articles] by simp
  show ?thesis
  proof (cases r1)
    case (Inl err)
    then show ?thesis using False 1 sa by (simp add: updateArticles_cases)
  next
    case (Inr rs)
    note r1 = this
    have len: "length (articles wa) = length (articles w) + length (updatedArticles rs)"
      using upsertManyArticles_length [of e rssID "normalizeArticles e raws" ?w0 rs wa] 1 r1 by simp
    show ?thesis
    proof (cases r2)
      case (Inl err)
      then show ?thesis using False 1 2 r1 sa sb by (simp add: updateArticles_cases)
    next
      case (Inr n)
      note r2 = this
      obtain r3 wc where 3: "RSS_update e rssID (SetPostCount n) wb = (r3, wc)"
        by (cases "RSS_update e rssID (SetPostCount n) wb")
      have sc: "streamCalls (trace wc) = streamCalls (trace wb)"
        using keepsD [OF silent_RSS_update 3, of streamCall] by (simp add: streamCalls_def)
      have ac: "articles wc = articles wb"
        using keepsD [OF keeps_articles_RSS_update 3] .
      show ?thesis
      proof (cases r3)
        case (Inl err)
        then show ?thesis using False 1 2 3 r1 r2 sa sb sc by (simp add: updateArticles_cases)
      next
        case (Inr u)
        have run: "updateArticles e rssID rssDoc raws w = fanOut e rssID rssDoc (updatedArticles rs) wc"
          using False 1 2 3 r1 r2 Inr by (simp add: updateArticles_cases)
        have "articles (snd (fanOut e rssID rssDoc (updatedArticles rs) wc)) = articles wc"
          using keeps_fanOut [of articles e rssID rssDoc "updatedArticles rs"] by (simp add: keeps_def)
        then have "length (articles wa) = length (articles w)"
          using assms run ab ac by simp
        then have "updatedArticles rs = []" using len by simp
        then show ?thesis using run sa sb sc by (simp add: fanOut_nothing streamCalls_append)
      qed
    qed
  qed
qed

section \<open>postCount\<close>

lemma keeps_postCount_RSS_update:
  "keeps (\<lambda>w. map_option postCount (feeds w k))
     (RSS_update e rssID (SetLastScrapedIsParsing t b))"
  unfolding RSS_update_def
  by (intro keeps_await keeps_call keeps_state) (simp_all add: update_feed_def split: option.splits)

lemma keeps_postCount_reset:
  "keeps (\<lambda>w. map_option postCount (feeds w k)) (RSS_resetScrapeFailures e rssID)"
  unfolding RSS_resetScrapeFailures_def
  by (intro keeps_await keeps_call keeps_state) (simp_all add: update_feed_def split: option.splits)

lemma keeps_postCount_incr:
  "keeps (\<lambda>w. map_option postCount (feeds w k)) (RSS_incrScrapeFailures e rssID)"
  unfolding RSS_incrScrapeFailures_def
  by (intro keeps_await keeps_call keeps_state) (simp_all add: update_feed_def split: option.splits)

lemma keeps_postCount_parsing:
  "keeps (\<lambda>w. map_option postCount (feeds w k)) (parsing e j)"
  unfolding parsing_def
  by (intro keeps_tryCatch keeps_await keeps_fetch keeps_postCount_reset keeps_postCount_incr
      keeps_resolve keeps_throw) simp

lemma keeps_feeds_RSS_findOne: "keeps feeds (RSS_findOne e rssID)"
  unfolding RSS_findOne_def
  by (intro keeps_await keeps_call keeps_state) simp_all

text \<open>A job whose parser returns no article reads and writes no \<open>postCount\<close>.\<close>

lemma handleRSS_no_postCount:
  assumes "\<forall>raws. ParseFeed e (job_url j) = Inr (Some raws) \<longrightarrow> raws = []"
  shows "postCountCalls (trace (snd (handleRSS e j w))) = postCountCalls (trace w) \<and>
         map_option postCount (feeds (snd (handleRSS e j w)) k) = map_option postCount (feeds w k)"
proof -
  let ?obs = "\<lambda>w. (postCountCalls (trace w), map_option postCount (feeds w k))"
  have k1: "keeps ?obs (markDone e (job_rss j))"
    unfolding markDone_def postCountCalls_def
    by (intro keeps_pair silent_RSS_update keeps_postCount_RSS_update) simp
  have k2: "keeps ?obs (RSS_findOne e (job_rss j))"
    unfolding postCountCalls_def
    by (intro keeps_pair silent_RSS_findOne keeps_comp [OF keeps_feeds_RSS_findOne]) simp
  have k3: "keeps ?obs (parsing e j)"
    unfolding postCountCalls_def
    by (intro keeps_pair silent_parsing keeps_postCount_parsing) simp_all
  have "?obs (snd (handleRSS e j w)) = ?obs w"
    using handleRSS_split [of ?obs e j w, OF k1 k2 k3]
  proof (elim disjE exE conjE)
    fix rssDoc raws wc
    assume o: "?obs wc = ?obs w" and p: "ParseFeed e (job_url j) = Inr (Some raws)"
      and run: "handleRSS e j w = updateArticles e (job_rss j) rssDoc raws wc"
    have "raws = []" using assms p by simp
    then show ?thesis using run o by (simp add: updateArticles_cases)
  qed
  then show ?thesis by simp
qed

section \<open>A store that rejects nothing\<close>

lemma upsertArticle_accepts:
  assumes "fault e (EvArticle_findOneAndUpdate rssID p) = None"
  shows "\<exists>x. fst (upsertArticle e rssID p w) = Inr x"
  using assms
  by (simp add: upsertArticle_cases findOneAndUpdate_cases Let_def duplicateKeyError_def
      split: option.splits prod.splits)

lemma promiseAll_accepts:
  assumes "\<And>m w. m \<in> set ms \<Longrightarrow> \<exists>x. fst (m w) = Inr x"
  shows "\<exists>xs. fst (promiseAll ms w) = Inr xs"
  using assms
proof (induction ms arbitrary: w)
  case Nil
  then show ?case by simp
next
  case (Cons m ms)
  obtain r wa where 1: "m w = (r, wa)" by (cases "m w")
  obtain rs wb where 2: "promiseAll ms wa = (rs, wb)" by (cases "promiseAll ms wa")
  obtain x where x: "r = Inr x" using Cons.prems [of m w] 1 by auto
  have "\<exists>xs. fst (promiseAll ms wa) = Inr xs"
    using Cons.IH [of wa] Cons.prems by simp
  then obtain xs where "rs = Inr xs" using 2 by auto
  then show ?case using 1 2 x by simp
qed

lemma upsertManyArticles_accepts:
  assumes "fault e (EvArticle_find rssID (searchData as)) = None"
    and "\<And>p. fault e (EvArticle_findOneAndUpdate rssID p) = None"
  shows "\<exists>rs. fst (upsertManyArticles e rssID as w) = Inr rs"
proof -
  let ?ps = "articlesToUpsert (matching rssID (searchData as) (articles w)) as"
  let ?wa = "w\<lparr>trace := trace w @ [EvArticle_find rssID (searchData as),
        EvStatsdIncrement ''winds.handle_rss.articles.already_in_mongo''
          (length (matching rssID (searchData as) (articles w)))]\<rparr>"
  have run: "upsertManyArticles e rssID as w =
      promiseAll (map (\<lambda>article. upsertArticle e rssID article) ?ps) ?wa"
    using assms(1) by (simp add: upsertManyArticles_def Article_find_def io_defs)
  have "\<exists>xs. fst (promiseAll (map (\<lambda>article. upsertArticle e rssID article) ?ps) ?wa) = Inr xs"
  proof (rule promiseAll_accepts)
    fix m w
    assume "m \<in> set (map (\<lambda>article. upsertArticle e rssID article) ?ps)"
    then obtain p where "m = upsertArticle e rssID p" by auto
    then show "\<exists>x. fst (m w) = Inr x"
      using upsertArticle_accepts [OF assms(2)] by simp
  qed
  then show ?thesis using run by simp
qed

text \<open>\<open>updateArticles\<close> on a feed that exists, under a store that rejects nothing.\<close>

lemma updateArticles_postCount:
  assumes "raws \<noteq> []" and "feeds w rssID = Some f"
    and "\<And>pairs. fault e (EvArticle_find rssID pairs) = None"
    and "\<And>p. fault e (EvArticle_findOneAndUpdate rssID p) = None"
    and "fault e (EvArticle_count rssID) = None"
    and "\<And>n. fault e (EvRSS_update rssID (SetPostCount n)) = None"
  shows "map_option postCount (feeds (snd (updateArticles e rssID rssDoc raws w)) rssID) =
           Some (length (filter (\<lambda>a. rss a = rssID)
                   (articles (snd (updateArticles e rssID rssDoc raws w)))))"
proof -
  let ?w0 = "w\<lparr>trace := trace w @
                   [EvStatsdIncrement ''winds.handle_rss.articles.parsed'' (length raws)]\<rparr>"
  obtain r1 wa where 1: "upsertManyArticles e rssID (normalizeArticles e raws) ?w0 = (r1, wa)"
    by (cases "upsertManyArticles e rssID (normalizeArticles e raws) ?w0")
  obtain rs where r1: "r1 = Inr rs"
    using upsertManyArticles_accepts [of e rssID "normalizeArticles e raws" ?w0] assms(3,4) 1
    by auto
  have fa: "feeds wa = feeds w"
    using keepsD [OF keeps_feeds_upsertManyArticles 1] by simp
  let ?n = "length (filter (\<lambda>a. rss a = rssID) (articles wa))"
  let ?wb = "wa\<lparr>trace := trace wa @ [EvArticle_count rssID]\<rparr>"
  have 2: "Article_count e rssID wa = (Inr ?n, ?wb)"
    using assms(5) by (simp add: Article_count_def io_defs)
  let ?wc = "?wb\<lparr>feeds := (feeds w)(rssID \<mapsto> f\<lparr>postCount := ?n\<rparr>),
                  trace := trace ?wb @ [EvRSS_update rssID (SetPostCount ?n)]\<rparr>"
  have 3: "RSS_update e rssID (SetPostCount ?n) ?wb = (Inr (), ?wc)"
    using assms(2,6) fa by (simp add: RSS_update_def io_defs update_feed_def)
  have run: "updateArticles e rssID rssDoc raws w = fanOut e rssID rssDoc (updatedArticles rs) ?wc"
    using assms(1) 1 r1 2 3 by (simp add: updateArticles_cases)
  have "feeds (snd (fanOut e rssID rssDoc (updatedArticles rs) ?wc)) = feeds ?wc"
    using keeps_fanOut [of feeds e rssID rssDoc "updatedArticles rs"] by (simp add: keeps_def)
  moreover have "articles (snd (fanOut e rssID rssDoc (updatedArticles rs) ?wc)) = articles ?wc"
    using keeps_fanOut [of articles e rssID rssDoc "updatedArticles rs"] by (simp add: keeps_def)
  ultimately show ?thesis unfolding run by simp
qed

section \<open>Articles under another url\<close>

lemma update_first_filter:
  assumes "update_first P g as = Some (d, as')"
    and "\<And>a. P a \<Longrightarrow> \<not> Q a \<and> \<not> Q (g a)"
  shows "filter Q as' = filter Q as"
  using assms(1)
proof (induction as arbitrary: as')
  case Nil
  then show ?case by simp
next
  case (Cons a as)
  show ?case
  proof (cases "P a")
    case True
    then have "as' = g a # as" using Cons.prems by auto
    then show ?thesis using assms(2) [OF True] by simp
  next
    case False
    then obtain as2 where 1: "update_first P g as = Some (d, as2)" and 2: "as' = a # as2"
      using Cons.prems by (auto split: option.splits)
    show ?thesis using Cons.IH [OF 1] 2 by simp
  qed
qed

lemma keeps_other_url_findOneAndUpdate:
  assumes "url p \<noteq> u"
  shows "keeps (\<lambda>w. filter (\<lambda>a. rss a = f \<and> url a = u) (articles w))
           (Article_findOneAndUpdate e rssID p)"
  unfolding keeps_def
proof
  fix w
  let ?Q = "\<lambda>a. rss a = f \<and> url a = u"
  let ?P = "\<lambda>a. rss a = rssID \<and> url a = url p \<and> postContentDiffers p a"
  let ?g = "\<lambda>a. update rssID p (oid a)"
  show "filter ?Q (articles (snd (Article_findOneAndUpdate e rssID p w))) = filter ?Q (articles w)"
  proof (cases "fault e (EvArticle_findOneAndUpdate rssID p)")
    case (Some err)
    then show ?thesis by (simp add: findOneAndUpdate_cases Let_def)
  next
    case None
    note nofault = this
    show ?thesis
    proof (cases "update_first ?P ?g (articles w)")
      case None
      then show ?thesis using nofault assms
        by (simp add: findOneAndUpdate_cases Let_def update_def)
    next
      case (Some das)
      obtain d as' where das: "das = (d, as')" by (cases das)
      have "filter ?Q as' = filter ?Q (articles w)"
      proof (rule update_first_filter)
        show "update_first ?P ?g (articles w) = Some (d, as')" using Some das by simp
        show "\<not> ?Q a \<and> \<not> ?Q (?g a)" if "?P a" for a
          using that assms by (simp add: update_def)
      qed
      then show ?thesis using nofault Some das
        by (simp add: findOneAndUpdate_cases Let_def)
    qed
  qed
qed

lemma keeps_other_url_upsertArticle:
  assumes "url p \<noteq> u"
  shows "keeps (\<lambda>w. filter (\<lambda>a. rss a = f \<and> url a = u) (articles w)) (upsertArticle e rssID p)"
  unfolding upsertArticle_def
  by (intro keeps_tryCatch keeps_await keeps_other_url_findOneAndUpdate assms)
     (simp_all add: keeps_resolve keeps_throw keeps_await keeps_emit)

text \<open>The candidates that are kept do not have the url of an exact match.\<close>

lemma articlesToUpsert_url:
  assumes "s \<in> set stored" and "rss s = rssID" and "c \<in> set as"
    and "url s = url c" and "contentHash s = contentHash c"
    and "p \<in> set (articlesToUpsert (matching rssID (searchData as) stored) as)"
  shows "url p \<noteq> url c"
proof -
  have "s \<in> {a \<in> set stored. rss a = rssID \<and>
                      (\<exists>c\<in>set as. url a = url c \<and> contentHash a = contentHash c)}"
    using assms(1-5) by auto
  then have "url s \<in> url ` {a \<in> set stored. rss a = rssID \<and>
                      (\<exists>c\<in>set as. url a = url c \<and> contentHash a = contentHash c)}"
    by (rule imageI)
  then have "url c \<in> url ` {a \<in> set stored. rss a = rssID \<and>
                      (\<exists>c\<in>set as. url a = url c \<and> contentHash a = contentHash c)}"
    unfolding assms(4) .
  moreover have "url p \<notin> url ` {a \<in> set stored. rss a = rssID \<and>
                      (\<exists>c\<in>set as. url a = url c \<and> contentHash a = contentHash c)}"
    using assms(6) unfolding articlesToUpsert_matching by simp
  ultimately show ?thesis by (rule_tac notI) simp
qed

lemma upsertManyArticles_other_url:
  assumes "\<And>p. p \<in> set (articlesToUpsert (matching rssID (searchData as) (articles w)) as)
             \<Longrightarrow> url p \<noteq> u"
  shows "filter (\<lambda>a. rss a = f \<and> url a = u) (articles (snd (upsertManyArticles e rssID as w))) =
         filter (\<lambda>a. rss a = f \<and> url a = u) (articles w)"
proof -
  let ?obs = "\<lambda>w. filter (\<lambda>a. rss a = f \<and> url a = u) (articles w)"
  let ?ps = "articlesToUpsert (matching rssID (searchData as) (articles w)) as"
  let ?ms = "map (\<lambda>article. upsertArticle e rssID article) ?ps"
  let ?wa = "w\<lparr>trace := trace w @ [EvArticle_find rssID (searchData as),
        EvStatsdIncrement ''winds.handle_rss.articles.already_in_mongo''
          (length (matching rssID (searchData as) (articles w)))]\<rparr>"
  show ?thesis
  proof (cases "fault e (EvArticle_find rssID (searchData as))")
    case (Some err)
    then show ?thesis by (simp add: upsertManyArticles_def Article_find_def io_defs)
  next
    case None
    then have run: "upsertManyArticles e rssID as w = promiseAll ?ms ?wa"
      by (simp add: upsertManyArticles_def Article_find_def io_defs)
    have "keeps ?obs (promiseAll ?ms)"
    proof (rule keeps_promiseAll)
      fix m assume "m \<in> set ?ms"
      then obtain p where "p \<in> set ?ps" "m = upsertArticle e rssID p" by auto
      then show "keeps ?obs m" using keeps_other_url_upsertArticle assms by simp
    qed
    then have "?obs (snd (promiseAll ?ms ?wa)) = ?obs ?wa" by (simp add: keeps_def)
    then show ?thesis unfolding run by simp
  qed
qed

section \<open>The identifiers of the returned documents\<close>

lemma nextId_findOneAndUpdate:
  "nextId w \<le> nextId (snd (Article_findOneAndUpdate e rssID p w))"
  by (simp add: findOneAndUpdate_cases Let_def split: option.splits prod.splits)

lemma nextId_upsertArticle:
  assumes "upsertArticle e rssID p w = (r, w')"
  shows "nextId w \<le> nextId w'"
proof -
  obtain r1 wa where f: "Article_findOneAndUpdate e rssID p w = (r1, wa)"
    by (cases "Article_findOneAndUpdate e rssID p w")
  have "nextId w \<le> nextId wa"
    using nextId_findOneAndUpdate [of w e rssID p] f by simp
  moreover have "nextId w' = nextId wa"
    using assms f by (cases r1) (auto simp add: upsertArticle_cases split: if_splits)
  ultimately show ?thesis by simp
qed

lemma promiseAll_result_from_state:
  assumes "promiseAll ms w = (Inr rs, w')" and "n \<le> nextId w"
    and "\<And>m wa r wb. m \<in> set ms \<Longrightarrow> m wa = (r, wb) \<Longrightarrow> nextId wa \<le> nextId wb"
  shows "\<forall>r\<in>set rs. \<exists>m\<in>set ms. \<exists>wa wb. n \<le> nextId wa \<and> m wa = (Inr r, wb)"
  using assms
proof (induction ms arbitrary: w w' rs)
  case Nil
  then show ?case by auto
next
  case (Cons m ms)
  obtain r wa where 1: "m w = (r, wa)" by (cases "m w")
  obtain rs' wb where 2: "promiseAll ms wa = (rs', wb)" by (cases "promiseAll ms wa")
  obtain x xs where r: "r = Inr x" and rs': "rs' = Inr xs" and rs: "rs = x # xs"
    using Cons.prems(1) 1 2 by (auto split: sum.splits)
  have "nextId w \<le> nextId wa" using Cons.prems(3) [of m w r wa] 1 by simp
  then have na: "n \<le> nextId wa" using Cons.prems(2) by simp
  have tl: "\<forall>r\<in>set xs. \<exists>m\<in>set ms. \<exists>wa wb. n \<le> nextId wa \<and> m wa = (Inr r, wb)"
  proof (rule Cons.IH)
    show "promiseAll ms wa = (Inr xs, wb)" using 2 rs' by simp
    show "n \<le> nextId wa" by (rule na)
    show "nextId wa \<le> nextId wb" if "m \<in> set ms" "m wa = (r, wb)" for m wa r wb
      using Cons.prems(3) [of m wa r wb] that by simp
  qed
  have hd: "n \<le> nextId w \<and> m w = (Inr x, wa)" using 1 r Cons.prems(2) by simp
  show ?case unfolding rs
  proof
    fix y assume "y \<in> set (x # xs)"
    then consider "y = x" | "y \<in> set xs" by auto
    then show "\<exists>m\<in>set (m # ms). \<exists>wa wb. n \<le> nextId wa \<and> m wa = (Inr y, wb)"
    proof cases
      case 1
      then show ?thesis using hd by auto
    next
      case 2
      then have "\<exists>m\<in>set ms. \<exists>wa wb. n \<le> nextId wa \<and> m wa = (Inr y, wb)"
        using tl by (rule_tac bspec)
      then obtain m' wc wd where "m' \<in> set ms" "n \<le> nextId wc" "m' wc = (Inr y, wd)"
        by (elim bexE exE conjE)
      then show ?thesis by auto
    qed
  qed
qed

lemma upsertManyArticles_docs_id:
  assumes "upsertManyArticles e rssID as w = (Inr rs, w')"
    and "d \<in> set (updatedArticles rs)"
  shows "\<exists>p\<in>set (articlesToUpsert (matching rssID (searchData as) (articles w)) as).
           \<exists>n. nextId w \<le> n \<and> d = update rssID p (ObjectId e n)"
proof -
  let ?ps = "articlesToUpsert (matching rssID (searchData as) (articles w)) as"
  let ?ms = "map (\<lambda>article. upsertArticle e rssID article) ?ps"
  let ?wa = "w\<lparr>trace := trace w @ [EvArticle_find rssID (searchData as),
        EvStatsdIncrement ''winds.handle_rss.articles.already_in_mongo''
          (length (matching rssID (searchData as) (articles w)))]\<rparr>"
  have nofault: "fault e (EvArticle_find rssID (searchData as)) = None"
    using assms(1)
    by (cases "fault e (EvArticle_find rssID (searchData as))")
       (auto simp add: upsertManyArticles_def Article_find_def io_defs)
  have run: "promiseAll ?ms ?wa = (Inr rs, w')"
    using assms(1) nofault by (simp add: upsertManyArticles_def Article_find_def io_defs)
  have mono: "nextId wa \<le> nextId wb" if "m \<in> set ?ms" "m wa = (r, wb)" for m wa r wb
  proof -
    have "m \<in> upsertArticle e rssID ` set ?ps" using that(1) by simp
    then obtain p where "m = upsertArticle e rssID p" by (rule imageE)
    then show ?thesis using that(2) nextId_upsertArticle [of e rssID p wa r wb] by simp
  qed
  have res: "\<forall>r\<in>set rs. \<exists>m\<in>set ?ms. \<exists>wa wb. nextId w \<le> nextId wa \<and> m wa = (Inr r, wb)"
  proof (rule promiseAll_result_from_state)
    show "promiseAll ?ms ?wa = (Inr rs, w')" by (rule run)
    show "nextId w \<le> nextId ?wa" by simp
    show "nextId wa \<le> nextId wb" if "m \<in> set ?ms" "m wa = (r, wb)" for m wa r wb
      using that by (rule mono)
  qed
  have "Doc d \<in> set rs" using assms(2) by (simp add: updatedArticles_set)
  then have "\<exists>m\<in>set ?ms. \<exists>wa wb. nextId w \<le> nextId wa \<and> m wa = (Inr (Doc d), wb)"
    using res by (rule_tac bspec)
  then obtain m wa wb where m: "m \<in> set ?ms" "nextId w \<le> nextId wa" "m wa = (Inr (Doc d), wb)"
    by (elim bexE exE conjE)
  have "m \<in> upsertArticle e rssID ` set ?ps" using m(1) by simp
  then obtain p where p1: "p \<in> set ?ps" and pm: "m = upsertArticle e rssID p" by (rule imageE)
  have p: "p \<in> set ?ps" "upsertArticle e rssID p wa = (Inr (Doc d), wb)"
    using p1 pm m(3) by simp_all
  have "d = update rssID p (ObjectId e (nextId wa))"
    using p(2) by (rule upsertArticle_Doc)
  then show ?thesis using p(1) m(2) by auto
qed

section \<open>What updateArticles adds to the log\<close>

lemma proj_logs:
  "logs m \<Longrightarrow> m w = (r, w') \<Longrightarrow>
   concat (map q (trace w')) = concat (map q (trace w)) @ concat (map q (newEvents w w'))"
  using newEvents_logs [of m w] by (metis concat_append map_append snd_conv)

lemma proj_silent_map: "(\<And>x. q (h x) = []) \<Longrightarrow> concat (map q (map h xs)) = []"
  by (induction xs) simp_all

lemma fanOut_upsertCalls:
  "upsertCalls (trace (snd (fanOut e rssID rssDoc as w))) = upsertCalls (trace w)"
proof -
  obtain r w' where run: "fanOut e rssID rssDoc as w = (r, w')"
    by (cases "fanOut e rssID rssDoc as w")
  obtain cs tail where t: "trace w' = trace w @
         EvStatsdIncrement ''winds.handle_rss.articles.upserted'' (length as) #
         map (\<lambda>a. EvOgQueueAdd (url a)) as @ map (EvAddActivities rssID) cs @ tail"
    and tl: "tail = [] \<or> tail = [EvSendRssFeedToCollections rssID rssDoc] \<and> concat cs = map streamArticle as"
    using fanOut_shape [OF run] by (elim exE conjE) (rule that)
  have "upsertCalls tail = []" using tl by (elim disjE) simp_all
  then show ?thesis
    using run t by (simp add: upsertCalls_append) (simp add: upsertCalls_def proj_silent_map)
qed

text \<open>
  After \<open>upsertManyArticles\<close> has left the world \<open>wa\<close>, \<open>updateArticles\<close> changes no
  article and makes no \<open>findOneAndUpdate\<close> call; its \<open>OgQueueAdd\<close> calls and its
  activities are those of a list \<open>ds\<close>, which is empty or the documents that
  \<open>upsertManyArticles\<close> returned.
\<close>

lemma updateArticles_after_upsert:
  assumes "raws \<noteq> []"
    and "upsertManyArticles e rssID (normalizeArticles e raws)
           (w\<lparr>trace := trace w @
              [EvStatsdIncrement ''winds.handle_rss.articles.parsed'' (length raws)]\<rparr>) = (r1, wa)"
  shows "articles (snd (updateArticles e rssID rssDoc raws w)) = articles wa \<and>
         upsertCalls (trace (snd (updateArticles e rssID rssDoc raws w))) = upsertCalls (trace wa) \<and>
         (\<exists>ds cs. (ds = [] \<or> (\<exists>rs. r1 = Inr rs \<and> ds = updatedArticles rs)) \<and>
             ogCalls (trace (snd (updateArticles e rssID rssDoc raws w))) =
               ogCalls (trace wa) @ map url ds \<and>
             activityChunks (trace (snd (updateArticles e rssID rssDoc raws w))) =
               activityChunks (trace wa) @ cs \<and>
             prefix (concat cs) (map streamArticle ds))"
proof (cases r1)
  case (Inl err)
  then have "updateArticles e rssID rssDoc raws w = (Inl err, wa)"
    using assms by (simp add: updateArticles_cases)
  then show ?thesis by (intro conjI exI [of _ "[]"]) simp_all
next
  case (Inr rs)
  note r1 = this
  obtain r2 wb where 2: "Article_count e rssID wa = (r2, wb)"
    by (cases "Article_count e rssID wa")
  have ab: "articles wb = articles wa"
    using keepsD [OF keeps_Article_count 2, of articles] by simp
  have ub: "upsertCalls (trace wb) = upsertCalls (trace wa)"
    using keepsD [OF silent_Article_count 2, of upsertCall] by (simp add: upsertCalls_def)
  have ob: "ogCalls (trace wb) = ogCalls (trace wa)"
    using keepsD [OF silent_Article_count 2, of ogCall] by (simp add: ogCalls_def)
  have cb: "activityChunks (trace wb) = activityChunks (trace wa)"
    using keepsD [OF silent_Article_count 2, of activityChunk] by (simp add: activityChunks_def)
  show ?thesis
  proof (cases r2)
    case (Inl err)
    then have "updateArticles e rssID rssDoc raws w = (Inl err, wb)"
      using assms r1 2 by (simp add: updateArticles_cases)
    then show ?thesis using ab ub ob cb by (intro conjI exI [of _ "[]"]) simp_all
  next
    case (Inr n)
    note r2 = this
    obtain r3 wc where 3: "RSS_update e rssID (SetPostCount n) wb = (r3, wc)"
      by (cases "RSS_update e rssID (SetPostCount n) wb")
    have ac: "articles wc = articles wa"
      using keepsD [OF keeps_articles_RSS_update 3] ab by simp
    have uc: "upsertCalls (trace wc) = upsertCalls (trace wa)"
      using keepsD [OF silent_RSS_update 3, of upsertCall] ub by (simp add: upsertCalls_def)
    have oc: "ogCalls (trace wc) = ogCalls (trace wa)"
      using keepsD [OF silent_RSS_update 3, of ogCall] ob by (simp add: ogCalls_def)
    have cc: "activityChunks (trace wc) = activityChunks (trace wa)"
      using keepsD [OF silent_RSS_update 3, of activityChunk] cb by (simp add: activityChunks_def)
    show ?thesis
    proof (cases r3)
      case (Inl err)
      then have "updateArticles e rssID rssDoc raws w = (Inl err, wc)"
        using assms r1 r2 2 3 by (simp add: updateArticles_cases)
      then show ?thesis using ac uc oc cc by (intro conjI exI [of _ "[]"]) simp_all
    next
      case (Inr u)
      let ?ds = "updatedArticles rs"
      obtain r4 wd where 4: "fanOut e rssID rssDoc ?ds wc = (r4, wd)"
        by (cases "fanOut e rssID rssDoc ?ds wc")
      have run: "updateArticles e rssID rssDoc raws w = (r4, wd)"
        using assms r1 r2 2 3 4 Inr by (simp add: updateArticles_cases)
      have ad: "articles wd = articles wa"
        using keepsD [OF keeps_fanOut 4, of articles] ac by simp
      have ud: "upsertCalls (trace wd) = upsertCalls (trace wa)"
        using fanOut_upsertCalls [of e rssID rssDoc ?ds wc] 4 uc by simp
      have od: "ogCalls (trace wd) = ogCalls (trace wa) @ map url ?ds"
        using proj_logs [OF logs_fanOut 4, of ogCall] fanOut_ogCalls [of wc e rssID rssDoc ?ds] 4 oc
        by (simp add: ogCalls_def)
      have cd: "activityChunks (trace wd) =
          activityChunks (trace wa) @ activityChunks (newEvents wc wd)"
        using proj_logs [OF logs_fanOut 4, of activityChunk] cc by (simp add: activityChunks_def)
      have pd: "prefix (concat (activityChunks (newEvents wc wd))) (map streamArticle ?ds)"
        using fanOut_activityChunks [of wc e rssID rssDoc ?ds] 4 by simp
      show ?thesis
        unfolding run snd_conv
      proof (intro conjI exI [of _ ?ds] exI [of _ "activityChunks (newEvents wc wd)"])
        show "?ds = [] \<or> (\<exists>rs'. r1 = Inr rs' \<and> ?ds = updatedArticles rs')"
          using r1 by simp
      qed (rule ad ud od cd pd)+
    qed
  qed
qed

section \<open>Submitting a stored article again\<close>

lemma normalizeArticles_set:
  "a \<in> set raws \<Longrightarrow> normalizeArticle e a = Some c \<Longrightarrow> c \<in> set (normalizeArticles e raws)"
  by (force simp add: normalizeArticles_def List.map_filter_def)

lemma silent_ogCalls_upsertManyArticles:
  "keeps (\<lambda>w. ogCalls (trace w)) (upsertManyArticles e rssID as)"
  unfolding ogCalls_def by (rule silent_upsertManyArticles) simp_all

lemma silent_activityChunks_upsertManyArticles:
  "keeps (\<lambda>w. activityChunks (trace w)) (upsertManyArticles e rssID as)"
  unfolding activityChunks_def by (rule silent_upsertManyArticles) simp_all

lemma upsertCalls_find_rejected:
  "fault e (EvArticle_find rssID (searchData as)) = Some err \<Longrightarrow>
   upsertCalls (trace (snd (upsertManyArticles e rssID as w))) = upsertCalls (trace w)"
  by (simp add: upsertManyArticles_def Article_find_def io_defs upsertCalls_append)

lemma updateArticles_resubmission:
  assumes "a \<in> set raws" and "normalizeArticle e a = Some c"
    and "s \<in> set (articles w)" and "rss s = rssID"
    and "url s = url c" and "contentHash s = contentHash c"
  shows "filter (\<lambda>d. rss d = rssID \<and> url d = url c)
           (articles (snd (updateArticles e rssID rssDoc raws w))) =
         filter (\<lambda>d. rss d = rssID \<and> url d = url c) (articles w) \<and>
         (\<exists>ps ds cs.
            upsertCalls (trace (snd (updateArticles e rssID rssDoc raws w))) =
              upsertCalls (trace w) @ map (Pair rssID) ps \<and>
            (\<forall>p\<in>set ps. url p \<noteq> url c) \<and>
            ogCalls (trace (snd (updateArticles e rssID rssDoc raws w))) =
              ogCalls (trace w) @ map url ds \<and>
            activityChunks (trace (snd (updateArticles e rssID rssDoc raws w))) =
              activityChunks (trace w) @ cs \<and>
            prefix (concat cs) (map streamArticle ds) \<and>
            (\<forall>d\<in>set ds. url d \<noteq> url c \<and> (\<exists>n. nextId w \<le> n \<and> oid d = ObjectId e n)))"
proof -
  let ?w' = "snd (updateArticles e rssID rssDoc raws w)"
  let ?as = "normalizeArticles e raws"
  let ?w0 = "w\<lparr>trace := trace w @
              [EvStatsdIncrement ''winds.handle_rss.articles.parsed'' (length raws)]\<rparr>"
  let ?kept = "articlesToUpsert (matching rssID (searchData ?as) (articles w)) ?as"
  have ne: "raws \<noteq> []" using assms(1) by auto
  have c: "c \<in> set ?as" using assms(1,2) by (rule normalizeArticles_set)
  have kept: "url p \<noteq> url c" if "p \<in> set ?kept" for p
    using assms(3,4) c assms(5,6) that by (rule articlesToUpsert_url)
  obtain r1 wa where 1: "upsertManyArticles e rssID ?as ?w0 = (r1, wa)"
    by (cases "upsertManyArticles e rssID ?as ?w0")
  obtain ds cs where after: "articles ?w' = articles wa"
      "upsertCalls (trace ?w') = upsertCalls (trace wa)"
      "ds = [] \<or> (\<exists>rs. r1 = Inr rs \<and> ds = updatedArticles rs)"
      "ogCalls (trace ?w') = ogCalls (trace wa) @ map url ds"
      "activityChunks (trace ?w') = activityChunks (trace wa) @ cs"
      "prefix (concat cs) (map streamArticle ds)"
    using updateArticles_after_upsert [OF ne 1, of rssDoc] by (elim exE conjE) (rule that)
  have frame: "filter (\<lambda>d. rss d = rssID \<and> url d = url c) (articles wa) =
      filter (\<lambda>d. rss d = rssID \<and> url d = url c) (articles w)"
    using upsertManyArticles_other_url [of rssID ?as ?w0 "url c" rssID e] kept 1 by simp
  have og: "ogCalls (trace wa) = ogCalls (trace w)"
    using keepsD [OF silent_ogCalls_upsertManyArticles 1] by (simp add: ogCalls_append)
  have ch: "activityChunks (trace wa) = activityChunks (trace w)"
    using keepsD [OF silent_activityChunks_upsertManyArticles 1]
    by (simp add: activityChunks_append)
  have "\<exists>ps. upsertCalls (trace wa) = upsertCalls (trace w) @ map (Pair rssID) ps \<and>
             (\<forall>p\<in>set ps. url p \<noteq> url c)"
  proof (cases "fault e (EvArticle_find rssID (searchData ?as))")
    case None
    have "upsertCalls (trace wa) = upsertCalls (trace w) @ map (Pair rssID) ?kept"
      using upsertCalls_upsertManyArticles [OF None, of ?w0] 1 by (simp add: upsertCalls_append)
    then show ?thesis using kept by (intro exI [of _ ?kept]) simp
  next
    case (Some err)
    have "upsertCalls (trace wa) = upsertCalls (trace w)"
      using upsertCalls_find_rejected [OF Some, of ?w0] 1
      by (simp add: upsertCalls_append)
    then show ?thesis by (intro exI [of _ "[]"]) simp
  qed
  then obtain ps where ps: "upsertCalls (trace wa) = upsertCalls (trace w) @ map (Pair rssID) ps"
      "\<forall>p\<in>set ps. url p \<noteq> url c"
    by (elim exE conjE)
  have docs: "url d \<noteq> url c \<and> (\<exists>n. nextId w \<le> n \<and> oid d = ObjectId e n)"
    if d: "d \<in> set ds" for d
  proof -
    have "ds \<noteq> []" using d by auto
    then obtain rs where rs: "r1 = Inr rs" "ds = updatedArticles rs"
      using after(3) by auto
    have "\<exists>p\<in>set ?kept. \<exists>n. nextId w \<le> n \<and> d = update rssID p (ObjectId e n)"
      using upsertManyArticles_docs_id [of e rssID ?as ?w0 rs wa d] 1 rs d by simp
    then obtain p n where "p \<in> set ?kept" "nextId w \<le> n" "d = update rssID p (ObjectId e n)"
      by (elim bexE exE conjE)
    then show ?thesis using kept [of p] by (auto simp add: update_def)
  qed
  show ?thesis
  proof (intro conjI exI [of _ ps] exI [of _ ds] exI [of _ cs] ballI)
    show "filter (\<lambda>d. rss d = rssID \<and> url d = url c) (articles ?w') =
         filter (\<lambda>d. rss d = rssID \<and> url d = url c) (articles w)"
      using after(1) frame by simp
    show "upsertCalls (trace ?w') = upsertCalls (trace w) @ map (Pair rssID) ps"
      using after(2) ps(1) by simp
    show "url p \<noteq> url c" if "p \<in> set ps" for p using ps(2) that by simp
    show "ogCalls (trace ?w') = ogCalls (trace w) @ map url ds"
      using after(4) og by simp
    show "activityChunks (trace ?w') = activityChunks (trace w) @ cs"
      using after(5) ch by simp
    show "prefix (concat cs) (map streamArticle ds)" by (rule after(6))
    show "url d \<noteq> url c" if "d \<in> set ds" for d using docs [OF that] by simp
    show "\<exists>n. nextId w \<le> n \<and> oid d = ObjectId e n" if "d \<in> set ds" for d
      using docs [OF that] by simp
  qed
qed

lemma keeps_store_RSS_update:
  assumes "\<And>w t. obs (w\<lparr>trace := t\<rparr>) = obs w" and "\<And>w fs. obs (w\<lparr>feeds := fs\<rparr>) = obs w"
  shows "keeps obs (RSS_update e rssID s)"
  unfolding RSS_update_def
  by (intro keeps_await keeps_call keeps_state) (simp_all add: assms update_feed_def split: option.splits)

lemma keeps_store_RSS_findOne:
  assumes "\<And>w t. obs (w\<lparr>trace := t\<rparr>) = obs w"
  shows "keeps obs (RSS_findOne e rssID)"
  unfolding RSS_findOne_def
  by (intro keeps_await keeps_call keeps_state) (simp_all add: assms)

lemma keeps_store_parsing:
  assumes "\<And>w t. obs (w\<lparr>trace := t\<rparr>) = obs w" and "\<And>w fs. obs (w\<lparr>feeds := fs\<rparr>) = obs w"
  shows "keeps obs (parsing e j)"
proof -
  have r: "keeps obs (RSS_resetScrapeFailures e (job_rss j))"
    unfolding RSS_resetScrapeFailures_def
    by (intro keeps_await keeps_call keeps_state)
       (simp_all add: assms update_feed_def split: option.splits)
  have i: "keeps obs (RSS_incrScrapeFailures e (job_rss j))"
    unfolding RSS_incrScrapeFailures_def
    by (intro keeps_await keeps_call keeps_state)
       (simp_all add: assms update_feed_def split: option.splits)
  show ?thesis
    unfolding parsing_def
    by (intro keeps_tryCatch keeps_await keeps_fetch r i keeps_resolve keeps_throw assms(1))
qed

text \<open>What the steps before \<open>updateArticles\<close> leave alone.\<close>

lemma handleRSS_prelude:
  "upsertCalls (trace (snd (handleRSS e j w))) = upsertCalls (trace w) \<and>
   ogCalls (trace (snd (handleRSS e j w))) = ogCalls (trace w) \<and>
   activityChunks (trace (snd (handleRSS e j w))) = activityChunks (trace w) \<and>
   articles (snd (handleRSS e j w)) = articles w \<or>
   (\<exists>rssDoc raws wc.
       upsertCalls (trace wc) = upsertCalls (trace w) \<and>
       ogCalls (trace wc) = ogCalls (trace w) \<and>
       activityChunks (trace wc) = activityChunks (trace w) \<and>
       articles wc = articles w \<and> nextId wc = nextId w \<and>
       ParseFeed e (job_url j) = Inr (Some raws) \<and>
       handleRSS e j w = updateArticles e (job_rss j) rssDoc raws wc)"
proof -
  let ?obs = "\<lambda>w. ((upsertCalls (trace w), ogCalls (trace w), activityChunks (trace w)),
                      (articles w, nextId w))"
  have k1: "keeps ?obs (markDone e (job_rss j))"
    unfolding markDone_def upsertCalls_def ogCalls_def activityChunks_def
    by (intro keeps_pair silent_RSS_update keeps_store_RSS_update) simp_all
  have k2: "keeps ?obs (RSS_findOne e (job_rss j))"
    unfolding upsertCalls_def ogCalls_def activityChunks_def
    by (intro keeps_pair silent_RSS_findOne keeps_store_RSS_findOne) simp_all
  have k3: "keeps ?obs (parsing e j)"
    unfolding upsertCalls_def ogCalls_def activityChunks_def
    by (intro keeps_pair silent_parsing keeps_store_parsing) simp_all
  show ?thesis
    using handleRSS_split [of ?obs e j w, OF k1 k2 k3]
  proof (elim disjE exE conjE)
    assume "?obs (snd (handleRSS e j w)) = ?obs w"
    then show ?thesis by simp
  next
    fix rssDoc raws wc
    assume "?obs wc = ?obs w" and "ParseFeed e (job_url j) = Inr (Some raws)"
      and "handleRSS e j w = updateArticles e (job_rss j) rssDoc raws wc"
    then show ?thesis by (intro disjI2 exI [of _ rssDoc] exI [of _ raws] exI [of _ wc]) simp
  qed
qed

section \<open>The acknowledgement stays\<close>

text \<open>
  Nothing that \<open>handleRSS\<close> does after \<open>markDone\<close> writes \<open>lastScraped\<close> or \<open>isParsing\<close>.
\<close>

lemma keeps_ack_reset:
  "keeps (\<lambda>w. map_option (\<lambda>f. (lastScraped f, isParsing f)) (feeds w k))
     (RSS_resetScrapeFailures e rssID)"
  unfolding RSS_resetScrapeFailures_def
  by (intro keeps_await keeps_call keeps_state) (simp_all add: update_feed_def split: option.splits)

lemma keeps_ack_incr:
  "keeps (\<lambda>w. map_option (\<lambda>f. (lastScraped f, isParsing f)) (feeds w k))
     (RSS_incrScrapeFailures e rssID)"
  unfolding RSS_incrScrapeFailures_def
  by (intro keeps_await keeps_call keeps_state) (simp_all add: update_feed_def split: option.splits)

lemma keeps_ack_parsing:
  "keeps (\<lambda>w. map_option (\<lambda>f. (lastScraped f, isParsing f)) (feeds w k)) (parsing e j)"
  unfolding parsing_def
  by (intro keeps_tryCatch keeps_await keeps_fetch keeps_ack_reset keeps_ack_incr
      keeps_resolve keeps_throw) simp

lemma keeps_ack_updateArticles:
  "keeps (\<lambda>w. map_option (\<lambda>f. (lastScraped f, isParsing f)) (feeds w k))
     (updateArticles e rssID rssDoc raws)"
proof -
  let ?obs = "\<lambda>w. map_option (\<lambda>f. (lastScraped f, isParsing f)) (feeds w k)"
  have u: "keeps ?obs (RSS_update e rssID (SetPostCount n))" for n
    unfolding RSS_update_def
    by (intro keeps_await keeps_call keeps_state) (simp_all add: update_feed_def split: option.splits)
  have m: "keeps ?obs (upsertManyArticles e rssID as)" for as
    using keeps_feeds_upsertManyArticles by (rule keeps_comp)
  show ?thesis
    unfolding updateArticles_def
    by (auto intro!: keeps_resolve keeps_await keeps_emit m keeps_Article_count u keeps_fanOut)
qed

lemma keeps_ack_afterMarkDone:
  "keeps (\<lambda>w. map_option (\<lambda>f. (lastScraped f, isParsing f)) (feeds w k))
     (await (RSS_findOne e rssID)
           (\<lambda>found. case found of
                None \<Rightarrow> resolve ()
              | Some rssDoc \<Rightarrow>
                  await (parsing e j)
                    (\<lambda>rssContent. case rssContent of
                         None \<Rightarrow> resolve ()
                       | Some raws \<Rightarrow> updateArticles e rssID rssDoc raws)))"
  by (intro keeps_await keeps_comp [OF keeps_feeds_RSS_findOne])
     (auto intro!: keeps_resolve keeps_await keeps_ack_parsing keeps_ack_updateArticles
       split: option.splits)

text \<open>The feed of the job after the job, when the store has carried out \<open>markDone\<close>.\<close>

lemma handleRSS_ack_fields:
  assumes "feeds w (job_rss j) = Some f"
    and "fault e (EvRSS_update (job_rss j) (SetLastScrapedIsParsing (now e) False)) = None"
  shows "map_option (\<lambda>f. (lastScraped f, isParsing f)) (feeds (snd (handleRSS e j w)) (job_rss j)) =
           Some (now e, False)"
proof -
  let ?obs = "\<lambda>w. map_option (\<lambda>f. (lastScraped f, isParsing f)) (feeds w (job_rss j))"
  let ?wa = "w\<lparr>feeds := (feeds w)(job_rss j \<mapsto> f\<lparr>lastScraped := now e, isParsing := False\<rparr>),
                trace := trace w @ [EvRSS_update (job_rss j) (SetLastScrapedIsParsing (now e) False)]\<rparr>"
  let ?rest = "await (RSS_findOne e (job_rss j))
           (\<lambda>found. case found of
                None \<Rightarrow> resolve ()
              | Some rssDoc \<Rightarrow>
                  await (parsing e j)
                    (\<lambda>rssContent. case rssContent of
                         None \<Rightarrow> resolve ()
                       | Some raws \<Rightarrow> updateArticles e (job_rss j) rssDoc raws))"
  have m: "markDone e (job_rss j) w = (Inr (), ?wa)"
    using assms by (simp add: markDone_def RSS_update_def io_defs update_feed_def)
  have run: "handleRSS e j w = ?rest ?wa"
    using m by (simp add: handleRSS_def Let_def await_def)
  have "?obs (snd (?rest ?wa)) = ?obs ?wa"
    using keeps_ack_afterMarkDone [of "job_rss j" e "job_rss j" j] by (simp add: keeps_def)
  then show ?thesis unfolding run by simp
qed

section \<open>The claims\<close>

text \<open>
  C1.  \<open>upsertManyArticles\<close> asks the store for the articles of the feed whose url
  and contentHash are both those of one candidate; call them \<open>M\<close>.  A candidate is
  kept (is in \<open>articlesToUpsert\<close>) if and only if its url is the url of no article of
  \<open>M\<close> and its contentHash is the contentHash of no article of \<open>M\<close>; and the
  \<open>findOneAndUpdate\<close> calls that the function then makes are those of the kept
  candidates, one each, in order: a candidate that fails either test is never
  written.  (When the query itself is rejected, nothing is written at all.)
\<close>

theorem prefilter_keeps_iff:
  fixes w :: world and rssID :: string and as :: "post list" and M :: "article set"
  defines "M \<equiv> {a \<in> set (articles w). rss a = rssID \<and>
                  (\<exists>c\<in>set as. url a = url c \<and> contentHash a = contentHash c)}"
  assumes "fault e (EvArticle_find rssID (searchData as)) = None"
  shows "(\<forall>c. c \<in> set (articlesToUpsert (matching rssID (searchData as) (articles w)) as) \<longleftrightarrow>
              c \<in> set as \<and> url c \<notin> url ` M \<and> contentHash c \<notin> contentHash ` M) \<and>
         upsertCalls (newEvents w (snd (upsertManyArticles e rssID as w))) =
           map (Pair rssID)
             (filter (\<lambda>c. url c \<notin> url ` M \<and> contentHash c \<notin> contentHash ` M) as)"
proof
  show "\<forall>c. c \<in> set (articlesToUpsert (matching rssID (searchData as) (articles w)) as) \<longleftrightarrow>
              c \<in> set as \<and> url c \<notin> url ` M \<and> contentHash c \<notin> contentHash ` M"
    unfolding M_def articlesToUpsert_matching by auto
next
  let ?w' = "snd (upsertManyArticles e rssID as w)"
  have "trace ?w' = trace w @ newEvents w ?w'"
    using logs_upsertManyArticles by (rule newEvents_logs)
  then have "upsertCalls (trace ?w') = upsertCalls (trace w) @ upsertCalls (newEvents w ?w')"
    by (simp add: upsertCalls_append)
  then have "upsertCalls (newEvents w ?w') =
      map (Pair rssID) (articlesToUpsert (matching rssID (searchData as) (articles w)) as)"
    using upsertCalls_upsertManyArticles [OF assms(2), of w] by simp
  then show "upsertCalls (newEvents w ?w') =
           map (Pair rssID)
             (filter (\<lambda>c. url c \<notin> url ` M \<and> contentHash c \<notin> contentHash ` M) as)"
    unfolding M_def articlesToUpsert_matching .
qed

theorem prefilter_keeps_iff_witness:
  "fault env0 (EvArticle_find ''F'' (searchData [post1, post2])) = None \<and>
   post1 \<notin> set (articlesToUpsert (matching ''F'' (searchData [post1, post2]) (articles world1)) [post1, post2]) \<and>
   post2 \<in> set (articlesToUpsert (matching ''F'' (searchData [post1, post2]) (articles world1)) [post1, post2]) \<and>
   upsertCalls (newEvents world1 (snd (upsertManyArticles env0 ''F'' [post1, post2] world1))) = [(''F'', post2)]"
  using prefilter_keeps_iff [where e = env0 and rssID = "''F''" and as = "[post1, post2]" and w = world1]
  by (simp add: fixture_defs run_defs io_defs)

text \<open>
  C2.  Take a call of \<open>upsertArticle\<close> whose \<open>findOneAndUpdate\<close> the store carries out
  (the calls it rejects are C3's).  If the feed had no article with the post's url
  and a differing \<open>commentUrl\<close>, \<open>content\<close>, \<open>description\<close> or \<open>title\<close>, the call has
  inserted the \<open>update\<close> document under a new \<open>_id\<close> and returns that document.  If
  the feed had such an article, one of them now holds the post's values under its
  old \<open>_id\<close>, no document was added, and the call returns no article: the
  function ends without a \<open>return\<close>, so the value is JavaScript's \<open>undefined\<close>, the
  "null" of the claim.  Downstream, \<open>updatedArticles\<close> (the filter of lines
  115-117) drops that value, and the dispatcher enqueues one enrichment job for each
  article that \<open>updatedArticles\<close> kept and publishes activities for those articles
  only.
\<close>

theorem upsertArticle_insert_or_update:
  assumes "Article_findOneAndUpdate e rssID p w = (Inr raw, w')"
  shows "(\<not> (\<exists>a\<in>set (articles w). rss a = rssID \<and> url a = url p \<and> postContentDiffers p a) \<longrightarrow>
            upsertArticle e rssID p w = (Inr (Doc (update rssID p (ObjectId e (nextId w)))), w') \<and>
            articles w' = articles w @ [update rssID p (ObjectId e (nextId w))]) \<and>
         ((\<exists>a\<in>set (articles w). rss a = rssID \<and> url a = url p \<and> postContentDiffers p a) \<longrightarrow>
            upsertArticle e rssID p w = (Inr Undefined, w') \<and>
            length (articles w') = length (articles w) \<and>
            (\<exists>a\<in>set (articles w). rss a = rssID \<and> url a = url p \<and> postContentDiffers p a \<and>
                update rssID p (oid a) \<in> set (articles w'))) \<and>
         (\<forall>rs rs'. updatedArticles (rs @ Undefined # rs') = updatedArticles (rs @ rs')) \<and>
         (\<forall>rs rssDoc wa.
            ogCalls (newEvents wa (snd (fanOut e rssID rssDoc (updatedArticles rs) wa))) =
              map url (updatedArticles rs) \<and>
            prefix (concat (activityChunks
                      (newEvents wa (snd (fanOut e rssID rssDoc (updatedArticles rs) wa)))))
              (map streamArticle (updatedArticles rs)))"
proof (intro conjI impI allI)
  let ?P = "\<lambda>a. rss a = rssID \<and> url a = url p \<and> postContentDiffers p a"
  have nofault: "fault e (EvArticle_findOneAndUpdate rssID p) = None"
    using assms findOneAndUpdate_fault [of e rssID p _ w]
    by (cases "fault e (EvArticle_findOneAndUpdate rssID p)") auto
  {
    assume none: "\<not> (\<exists>a\<in>set (articles w). ?P a)"
    have nodup: "\<not> (\<exists>a\<in>set (articles w). rss a = rssID \<and> url a = url p)"
    proof
      assume "\<exists>a\<in>set (articles w). rss a = rssID \<and> url a = url p"
      then show False
        using findOneAndUpdate_duplicate [OF nofault none] assms by simp
    qed
    have run: "Article_findOneAndUpdate e rssID p w =
     (Inr \<lparr>rr_value = update rssID p (ObjectId e (nextId w)), updatedExisting = False\<rparr>,
      w\<lparr>articles := articles w @ [update rssID p (ObjectId e (nextId w))],
        nextId := Suc (nextId w),
        trace := trace w @ [EvArticle_findOneAndUpdate rssID p]\<rparr>)"
      using findOneAndUpdate_insert [OF nofault nodup] .
    then show "upsertArticle e rssID p w = (Inr (Doc (update rssID p (ObjectId e (nextId w)))), w')"
      using assms by (simp add: upsertArticle_def tryCatch_def await_def resolve_def)
    show "articles w' = articles w @ [update rssID p (ObjectId e (nextId w))]"
      using run assms by auto
  }
  {
    assume some: "\<exists>a\<in>set (articles w). ?P a"
    then obtain d as' where uf: "update_first ?P (\<lambda>a. update rssID p (oid a)) (articles w) = Some (d, as')"
      using update_first_None [of ?P "\<lambda>a. update rssID p (oid a)" "articles w"]
      by (cases "update_first ?P (\<lambda>a. update rssID p (oid a)) (articles w)") auto
    have run: "Article_findOneAndUpdate e rssID p w =
     (Inr \<lparr>rr_value = d, updatedExisting = True\<rparr>,
      w\<lparr>articles := as', trace := trace w @ [EvArticle_findOneAndUpdate rssID p]\<rparr>)"
      using findOneAndUpdate_update [OF nofault uf] .
    then show "upsertArticle e rssID p w = (Inr Undefined, w')"
      using assms by (simp add: upsertArticle_def tryCatch_def await_def resolve_def)
    have a: "articles w' = as'" using run assms by auto
    show "length (articles w') = length (articles w)"
      using update_first_Some [OF uf] a by simp
    show "\<exists>a\<in>set (articles w). rss a = rssID \<and> url a = url p \<and> postContentDiffers p a \<and>
                update rssID p (oid a) \<in> set (articles w')"
      using update_first_Some [OF uf] a by auto
  }
  show "updatedArticles (rs @ Undefined # rs') = updatedArticles (rs @ rs')" for rs rs'
    by (simp add: updatedArticles_append)
  show "ogCalls (newEvents wa (snd (fanOut e rssID rssDoc (updatedArticles rs) wa))) =
              map url (updatedArticles rs)" for rs rssDoc wa
    by (rule fanOut_ogCalls)
  show "prefix (concat (activityChunks
                      (newEvents wa (snd (fanOut e rssID rssDoc (updatedArticles rs) wa)))))
              (map streamArticle (updatedArticles rs))" for rs rssDoc wa
    by (rule fanOut_activityChunks)
qed

theorem upsertArticle_insert_or_update_witness:
  "upsertArticle env0 ''F'' post2 world1 =
     (Inr (Doc (update ''F'' post2 ''ii'')),
      world1\<lparr>articles := [stored1, update ''F'' post2 ''ii''], nextId := 2,
             trace := [EvArticle_findOneAndUpdate ''F'' post2]\<rparr>) \<and>
   upsertArticle env0 ''F'' post4 world1 =
     (Inr Undefined,
      world1\<lparr>articles := [update ''F'' post4 ''i''],
             trace := [EvArticle_findOneAndUpdate ''F'' post4]\<rparr>) \<and>
   updatedArticles [Doc stored1, Undefined] = [stored1]"
proof -
  have ins: "Article_findOneAndUpdate env0 ''F'' post2 world1 =
     (Inr \<lparr>rr_value = update ''F'' post2 ''ii'', updatedExisting = False\<rparr>,
      world1\<lparr>articles := [stored1, update ''F'' post2 ''ii''], nextId := 2,
             trace := [EvArticle_findOneAndUpdate ''F'' post2]\<rparr>)"
    by (simp add: fixture_defs run_defs io_defs)
  have upd: "Article_findOneAndUpdate env0 ''F'' post4 world1 =
     (Inr \<lparr>rr_value = update ''F'' post4 ''i'', updatedExisting = True\<rparr>,
      world1\<lparr>articles := [update ''F'' post4 ''i''],
             trace := [EvArticle_findOneAndUpdate ''F'' post4]\<rparr>)"
    by (simp add: fixture_defs run_defs io_defs)
  have a: "\<not> (\<exists>a\<in>set (articles world1). rss a = ''F'' \<and> url a = url post2 \<and> postContentDiffers post2 a)"
    by (simp add: fixture_defs run_defs)
  have b: "\<exists>a\<in>set (articles world1). rss a = ''F'' \<and> url a = url post4 \<and> postContentDiffers post4 a"
    by (simp add: fixture_defs run_defs)
  have n: "ObjectId env0 (nextId world1) = ''ii''"
    by (simp add: fixture_defs)
  show ?thesis
    using upsertArticle_insert_or_update [OF ins] upsertArticle_insert_or_update [OF upd] a b n
    by (simp del: set_simps)
qed




text \<open>
  C4.  The prefilter drops new content.  The store holds \<open>stored1\<close>, the exact
  duplicate of \<open>post1\<close>.  In the batch \<open>[post1, post3]\<close>, \<open>post3\<close> has a url the feed
  has never seen and the contentHash of \<open>post1\<close>: it is dropped.  In the batch
  \<open>[post1, post4]\<close>, \<open>post4\<close> has the url of \<open>post1\<close> and a contentHash that no stored
  article has: it is dropped.  In both runs \<open>upsertManyArticles\<close> writes nothing.
\<close>

theorem prefilter_drops_new_content:
  "post3 \<in> set [post1, post3] \<and>
   \<not> list_ex (\<lambda>a. rss a = ''F'' \<and> url a = url post3) (articles world1) \<and>
   matching ''F'' (searchData [post1, post3]) (articles world1) = [(url post1, contentHash post1)] \<and>
   contentHash post3 = contentHash post1 \<and>
   post3 \<notin> set (articlesToUpsert (matching ''F'' (searchData [post1, post3]) (articles world1)) [post1, post3]) \<and>
   upsertCalls (newEvents world1 (snd (upsertManyArticles env0 ''F'' [post1, post3] world1))) = [] \<and>
   post4 \<in> set [post1, post4] \<and>
   \<not> list_ex (\<lambda>a. rss a = ''F'' \<and> contentHash a = contentHash post4) (articles world1) \<and>
   matching ''F'' (searchData [post1, post4]) (articles world1) = [(url post1, contentHash post1)] \<and>
   url post4 = url post1 \<and>
   post4 \<notin> set (articlesToUpsert (matching ''F'' (searchData [post1, post4]) (articles world1)) [post1, post4]) \<and>
   upsertCalls (newEvents world1 (snd (upsertManyArticles env0 ''F'' [post1, post4] world1))) = []"
  by (simp add: fixture_defs run_defs io_defs)

text \<open>
  C5.  Take a job on a feed that exists and whose acknowledgement and existence
  check the store carries out.  If the parser returns (whatever it returns) and the
  store carries out \<open>resetScrapeFailures\<close>, the feed's \<open>consecutiveScrapeFailures\<close> is 0
  when the job ends, whatever it was and however the rest of the job goes.  If the
  parser throws \<open>err\<close> and the store carries out \<open>incrScrapeFailures\<close>, the job is
  rejected with \<open>err\<close> right after that call, with the counter one higher than it
  was and nothing else changed but the two fields of the acknowledgement; and,
  whatever the store does, a job whose parser throws leaves every article as it
  was.
\<close>

theorem failure_counter:
  assumes "feeds w (job_rss j) = Some f"
    and "fault e (EvRSS_update (job_rss j) (SetLastScrapedIsParsing (now e) False)) = None"
    and "fault e (EvRSS_findOne (job_rss j)) = None"
  shows "(\<forall>res. ParseFeed e (job_url j) = Inr res \<longrightarrow>
            fault e (EvRSS_resetScrapeFailures (job_rss j)) = None \<longrightarrow>
            map_option consecutiveScrapeFailures (feeds (snd (handleRSS e j w)) (job_rss j)) =
              Some 0) \<and>
         (\<forall>err. ParseFeed e (job_url j) = Inl err \<longrightarrow>
            fault e (EvRSS_incrScrapeFailures (job_rss j)) = None \<longrightarrow>
            handleRSS e j w =
              (Inl err,
               w\<lparr>feeds := (feeds w)(job_rss j \<mapsto>
                     f\<lparr>lastScraped := now e, isParsing := False,
                       consecutiveScrapeFailures := consecutiveScrapeFailures f + 1\<rparr>),
                 trace := trace w @
                    [EvRSS_update (job_rss j) (SetLastScrapedIsParsing (now e) False),
                     EvRSS_findOne (job_rss j), EvParseFeed (job_url j),
                     EvRSS_incrScrapeFailures (job_rss j)]\<rparr>)) \<and>
         (\<forall>err. ParseFeed e (job_url j) = Inl err \<longrightarrow>
            articles (snd (handleRSS e j w)) = articles w)"
proof (intro conjI allI impI)
  let ?f' = "f\<lparr>lastScraped := now e, isParsing := False\<rparr>"
  let ?wb = "w\<lparr>feeds := (feeds w)(job_rss j \<mapsto> ?f'),
           trace := trace w @ [EvRSS_update (job_rss j) (SetLastScrapedIsParsing (now e) False),
                               EvRSS_findOne (job_rss j)]\<rparr>"
  let ?obs = "\<lambda>w. map_option consecutiveScrapeFailures (feeds w (job_rss j))"
  note ack = handleRSS_acknowledged [OF assms]
  {
    fix res
    assume p: "ParseFeed e (job_url j) = Inr res"
      and r: "fault e (EvRSS_resetScrapeFailures (job_rss j)) = None"
    let ?wc = "update_feed (job_rss j) (\<lambda>f. f\<lparr>consecutiveScrapeFailures := 0\<rparr>)
        (?wb\<lparr>trace := trace ?wb @ [EvParseFeed (job_url j), EvRSS_resetScrapeFailures (job_rss j)]\<rparr>)"
    have run: "parsing e j ?wb = (Inr res, ?wc)"
      using p r by (rule parsing_success)
    have zero: "?obs ?wc = Some 0"
      by (simp add: update_feed_def)
    show "?obs (snd (handleRSS e j w)) = Some 0"
    proof (cases res)
      case None
      then show ?thesis using ack run zero by simp
    next
      case (Some raws)
      then have "handleRSS e j w = updateArticles e (job_rss j) ?f' raws ?wc"
        using ack run by simp
      moreover have "?obs (snd (updateArticles e (job_rss j) ?f' raws ?wc)) = ?obs ?wc"
        using keeps_failures_updateArticles [of "job_rss j" e "job_rss j" ?f' raws]
        by (simp add: keeps_def)
      ultimately show ?thesis using zero by simp
    qed
  }
  {
    fix err
    assume p: "ParseFeed e (job_url j) = Inl err"
      and i: "fault e (EvRSS_incrScrapeFailures (job_rss j)) = None"
    show "handleRSS e j w =
              (Inl err,
               w\<lparr>feeds := (feeds w)(job_rss j \<mapsto>
                     f\<lparr>lastScraped := now e, isParsing := False,
                       consecutiveScrapeFailures := consecutiveScrapeFailures f + 1\<rparr>),
                 trace := trace w @
                    [EvRSS_update (job_rss j) (SetLastScrapedIsParsing (now e) False),
                     EvRSS_findOne (job_rss j), EvParseFeed (job_url j),
                     EvRSS_incrScrapeFailures (job_rss j)]\<rparr>)"
      unfolding ack parsing_failure [OF p i] by (simp add: update_feed_def)
  }
  {
    fix err
    assume p: "ParseFeed e (job_url j) = Inl err"
    show "articles (snd (handleRSS e j w)) = articles w"
      using handleRSS_split [of articles e j w, OF keeps_articles_markDone
          keeps_articles_RSS_findOne keeps_articles_parsing] p
      by auto
  }
qed

theorem failure_counter_witness:
  "map_option consecutiveScrapeFailures (feeds world0 ''F'') = Some 3 \<and>
   map_option consecutiveScrapeFailures (feeds (snd (handleRSS env0 job0 world0)) ''F'') = Some 0 \<and>
   handleRSS env_down job0 world1 =
     (Inl (Error None ''ETIMEDOUT''),
      world1\<lparr>feeds := [''F'' \<mapsto> feed0\<lparr>lastScraped := ''now'', isParsing := False,
                                        consecutiveScrapeFailures := 4\<rparr>],
             trace := [EvRSS_update ''F'' (SetLastScrapedIsParsing ''now'' False),
                       EvRSS_findOne ''F'', EvParseFeed ''a.com/feed'',
                       EvRSS_incrScrapeFailures ''F'']\<rparr>) \<and>
   articles (snd (handleRSS env_down job0 world1)) = [stored1]"
proof -
  have f0: "feeds world0 (job_rss job0) = Some feed0" and f1: "feeds world1 (job_rss job0) = Some feed0"
    by (simp_all add: world0_def world1_def job0_def)
  have ok: "fault env0 ev = None" and down: "fault env_down ev = None" for ev
    by (simp_all add: env0_def env_down_def)
  have p0: "ParseFeed env0 (job_url job0) = Inr (Some [raw1])"
    and p1: "ParseFeed env_down (job_url job0) = Inl (Error None ''ETIMEDOUT'')"
    by (simp_all add: env0_def env_down_def)
  show ?thesis
    using failure_counter [OF f0 ok ok] failure_counter [OF f1 down down] p0 p1 ok down
    by (simp add: world0_def world1_def feed0_def job0_def env_down_def env0_def)
qed

text \<open>
  C6.  Take a job whose parser returns a list in which one article normalises to
  the candidate \<open>c\<close>, on a store that already holds for the job's feed an article \<open>s\<close>
  with the url and the contentHash of \<open>c\<close>.  Whatever else is in the list and
  whatever fails: after the job, the feed's articles under that url are the ones it
  had, unchanged and in the same order (none added, none updated); the job makes
  no \<open>findOneAndUpdate\<close> call for a post with that url and no \<open>OgQueueAdd\<close> call for
  that url; and, the store handing out identifiers other than that of \<open>s\<close>, no
  activity that the job publishes has \<open>s\<close> as its object.
\<close>

theorem resubmission_idempotent:
  assumes "ParseFeed e (job_url j) = Inr (Some raws)"
    and "a \<in> set raws" and "normalizeArticle e a = Some c"
    and "s \<in> set (articles w)" and "rss s = job_rss j"
    and "url s = url c" and "contentHash s = contentHash c"
  shows "filter (\<lambda>d. rss d = job_rss j \<and> url d = url c) (articles (snd (handleRSS e j w))) =
           filter (\<lambda>d. rss d = job_rss j \<and> url d = url c) (articles w) \<and>
         url c \<notin> set (map (\<lambda>fp. url (snd fp)) (upsertCalls (newEvents w (snd (handleRSS e j w))))) \<and>
         url c \<notin> set (ogCalls (newEvents w (snd (handleRSS e j w)))) \<and>
         ((\<forall>n. nextId w \<le> n \<longrightarrow> ObjectId e n \<noteq> oid s) \<longrightarrow>
            oid s \<notin> set (map object
                        (concat (activityChunks (newEvents w (snd (handleRSS e j w)))))))"
proof -
  let ?w' = "snd (handleRSS e j w)"
  let ?Q = "\<lambda>d. rss d = job_rss j \<and> url d = url c"
  have "\<exists>ps ds cs.
          filter ?Q (articles ?w') = filter ?Q (articles w) \<and>
          upsertCalls (trace ?w') = upsertCalls (trace w) @ map (Pair (job_rss j)) ps \<and>
          (\<forall>p\<in>set ps. url p \<noteq> url c) \<and>
          ogCalls (trace ?w') = ogCalls (trace w) @ map url ds \<and>
          activityChunks (trace ?w') = activityChunks (trace w) @ cs \<and>
          prefix (concat cs) (map streamArticle ds) \<and>
          (\<forall>d\<in>set ds. url d \<noteq> url c \<and> (\<exists>n. nextId w \<le> n \<and> oid d = ObjectId e n))"
    using handleRSS_prelude [of e j w]
  proof (elim disjE exE conjE)
    assume "upsertCalls (trace ?w') = upsertCalls (trace w)"
      and "ogCalls (trace ?w') = ogCalls (trace w)"
      and "activityChunks (trace ?w') = activityChunks (trace w)"
      and "articles ?w' = articles w"
    then show ?thesis by (intro exI [of _ "[]"]) simp
  next
    fix rssDoc raws' wc
    assume wc: "upsertCalls (trace wc) = upsertCalls (trace w)"
        "ogCalls (trace wc) = ogCalls (trace w)"
        "activityChunks (trace wc) = activityChunks (trace w)"
        "articles wc = articles w" "nextId wc = nextId w"
      and p: "ParseFeed e (job_url j) = Inr (Some raws')"
      and run: "handleRSS e j w = updateArticles e (job_rss j) rssDoc raws' wc"
    have raws: "raws' = raws" using p assms(1) by simp
    have s: "s \<in> set (articles wc)" using assms(4) wc(4) by simp
    show ?thesis
      using updateArticles_resubmission [OF assms(2,3) s assms(5,6,7), of rssDoc]
      unfolding run raws wc
      by (elim conjE exE) (intro exI conjI; assumption)
  qed
  then obtain ps ds cs where
      frame: "filter ?Q (articles ?w') = filter ?Q (articles w)"
      and up: "upsertCalls (trace ?w') = upsertCalls (trace w) @ map (Pair (job_rss j)) ps"
      and ps: "\<forall>p\<in>set ps. url p \<noteq> url c"
      and og: "ogCalls (trace ?w') = ogCalls (trace w) @ map url ds"
      and ch: "activityChunks (trace ?w') = activityChunks (trace w) @ cs"
      and pre: "prefix (concat cs) (map streamArticle ds)"
      and ds: "\<forall>d\<in>set ds. url d \<noteq> url c \<and> (\<exists>n. nextId w \<le> n \<and> oid d = ObjectId e n)"
    by (elim exE conjE)
  have t: "trace ?w' = trace w @ newEvents w ?w'"
    using logs_handleRSS by (rule newEvents_logs)
  have up': "upsertCalls (newEvents w ?w') = map (Pair (job_rss j)) ps"
    using up unfolding t upsertCalls_append by simp
  have og': "ogCalls (newEvents w ?w') = map url ds"
    using og unfolding t ogCalls_append by simp
  have ch': "activityChunks (newEvents w ?w') = cs"
    using ch unfolding t activityChunks_append by simp
  have 1: "url c \<notin> set (map (\<lambda>fp. url (snd fp)) (upsertCalls (newEvents w ?w')))"
    unfolding up' using ps by (auto simp add: comp_def)
  have 2: "url c \<notin> set (ogCalls (newEvents w ?w'))"
    unfolding og' using ds by auto
  have 3: "oid s \<notin> set (map object (concat (activityChunks (newEvents w ?w'))))"
    if fresh: "\<forall>n. nextId w \<le> n \<longrightarrow> ObjectId e n \<noteq> oid s"
  proof
    assume "oid s \<in> set (map object (concat (activityChunks (newEvents w ?w'))))"
    then have "oid s \<in> object ` set (concat cs)"
      unfolding ch' by simp
    then obtain x where x: "oid s = object x" "x \<in> set (concat cs)"
      by (rule imageE)
    have "set (concat cs) \<subseteq> set (map streamArticle ds)"
      using pre by (rule set_mono_prefix)
    then have "x \<in> streamArticle ` set ds"
      using x(2) by auto
    then obtain d where d: "x = streamArticle d" "d \<in> set ds"
      by (rule imageE)
    then obtain n where n: "nextId w \<le> n" "oid d = ObjectId e n"
      using ds by auto
    have "object x = oid d" using d(1) by (simp add: streamArticle_def)
    then have "ObjectId e n = oid s" using x(1) n(2) by simp
    then show False using fresh n(1) by simp
  qed
  show ?thesis using frame 1 2 3 by (intro conjI impI)
qed

theorem resubmission_idempotent_witness:
  "articles (snd (handleRSS env_two job0 world1)) = [stored1, update ''F'' post2 ''ii''] \<and>
   filter (\<lambda>d. rss d = ''F'' \<and> url d = ''a.com/1'') (articles (snd (handleRSS env_two job0 world1))) =
     [stored1] \<and>
   upsertCalls (newEvents world1 (snd (handleRSS env_two job0 world1))) = [(''F'', post2)] \<and>
   ogCalls (newEvents world1 (snd (handleRSS env_two job0 world1))) = [''a.com/2''] \<and>
   activityChunks (newEvents world1 (snd (handleRSS env_two job0 world1))) =
     [[streamArticle (update ''F'' post2 ''ii'')]] \<and>
   oid stored1 \<notin> set (map object
      (concat (activityChunks (newEvents world1 (snd (handleRSS env_two job0 world1))))))"
proof -
  have tr: "trace (snd (handleRSS env_two job0 world1)) =
       [EvRSS_update ''F'' (SetLastScrapedIsParsing ''now'' False),
        EvRSS_findOne ''F'', EvParseFeed ''a.com/feed'',
        EvRSS_resetScrapeFailures ''F'',
        EvStatsdIncrement ''winds.handle_rss.articles.parsed'' 2,
        EvArticle_find ''F'' [(''a.com/1'', ''Tbody''), (''a.com/2'', ''Ubody'')],
        EvStatsdIncrement ''winds.handle_rss.articles.already_in_mongo'' 1,
        EvArticle_findOneAndUpdate ''F'' post2,
        EvArticle_count ''F'', EvRSS_update ''F'' (SetPostCount 2),
        EvStatsdIncrement ''winds.handle_rss.articles.upserted'' 1,
        EvOgQueueAdd ''a.com/2'',
        EvAddActivities ''F'' [streamArticle (update ''F'' post2 ''ii'')],
        EvSendRssFeedToCollections ''F'' (feed0\<lparr>lastScraped := ''now'', isParsing := False\<rparr>)]"
    by (simp del: set_filter add: env_two_def fixture_defs run_defs io_defs addActivitiesLoop.simps)
  have ar: "articles (snd (handleRSS env_two job0 world1)) = [stored1, update ''F'' post2 ''ii'']"
    by (simp del: set_filter add: env_two_def fixture_defs run_defs io_defs addActivitiesLoop.simps)
  have t0: "trace world1 = []"
    by (simp add: world1_def world0_def)
  have h: "ParseFeed env_two (job_url job0) = Inr (Some [raw1, raw1\<lparr>url := ''a.com/2'', title := ''U''\<rparr>])"
      "raw1 \<in> set [raw1, raw1\<lparr>url := ''a.com/2'', title := ''U''\<rparr>]"
      "normalizeArticle env_two raw1 = Some post1"
      "stored1 \<in> set (articles world1)" "rss stored1 = job_rss job0"
      "url stored1 = url post1" "contentHash stored1 = contentHash post1"
    by (simp_all add: env_two_def fixture_defs run_defs)
  have u: "url post1 = ''a.com/1''" "job_rss job0 = ''F''"
    by (simp_all add: fixture_defs run_defs)
  show ?thesis
    using resubmission_idempotent [OF h] u
    unfolding newEvents_def tr ar t0 by (simp del: set_filter add: fixture_defs run_defs)
qed

text \<open>
  C7, as the claim states it, fails.  The feed \<open>F\<close> of \<open>world1\<close> has one stored
  article and the stale \<open>postCount\<close> 0.  A job whose parser returns an empty list
  ends at line 86: it makes no \<open>Article.count\<close> call and no \<open>RSS.update\<close> with a count,
  and \<open>postCount\<close> is still 0 after it.  A job whose parser throws makes neither call
  either.
\<close>

theorem postCount_not_recomputed:
  "fst (handleRSS env_empty job0 world1) = Inr () \<and>
   postCountCalls (newEvents world1 (snd (handleRSS env_empty job0 world1))) = [] \<and>
   map_option postCount (feeds (snd (handleRSS env_empty job0 world1)) ''F'') = Some 0 \<and>
   length (filter (\<lambda>a. rss a = ''F'') (articles (snd (handleRSS env_empty job0 world1)))) = 1 \<and>
   postCountCalls (newEvents world1 (snd (handleRSS env_down job0 world1))) = [] \<and>
   map_option postCount (feeds (snd (handleRSS env_down job0 world1)) ''F'') = Some 0"
  by (simp del: set_filter add: env_empty_def env_down_def fixture_defs run_defs io_defs)

text \<open>
  C7, amended.  A job whose parser does not return at least one article (it
  returns an empty list or no content, or it throws) makes no \<open>Article.count\<close> call
  and no \<open>RSS.update\<close> with a count, and leaves the \<open>postCount\<close> of every feed as it
  was.  A job on a feed that exists, whose parser returns at least one article and
  in which nothing but the activity stream and the collections may reject a call,
  recomputes the count: when it ends, the feed's \<open>postCount\<close> is the number of
  articles the store holds for the feed.
\<close>

theorem postCount_recomputed:
  "((\<forall>raws. ParseFeed e (job_url j) = Inr (Some raws) \<longrightarrow> raws = []) \<longrightarrow>
      postCountCalls (newEvents w (snd (handleRSS e j w))) = [] \<and>
      (\<forall>k. map_option postCount (feeds (snd (handleRSS e j w)) k) =
           map_option postCount (feeds w k))) \<and>
   (\<forall>f raws. feeds w (job_rss j) = Some f \<longrightarrow>
      ParseFeed e (job_url j) = Inr (Some raws) \<longrightarrow> raws \<noteq> [] \<longrightarrow>
      (\<forall>ev. streamCall ev = [] \<longrightarrow> fault e ev = None) \<longrightarrow>
      map_option postCount (feeds (snd (handleRSS e j w)) (job_rss j)) =
        Some (length (filter (\<lambda>a. rss a = job_rss j) (articles (snd (handleRSS e j w))))))"
proof (intro conjI allI impI)
  let ?w' = "snd (handleRSS e j w)"
  {
    assume none: "\<forall>raws. ParseFeed e (job_url j) = Inr (Some raws) \<longrightarrow> raws = []"
    have "trace ?w' = trace w @ newEvents w ?w'"
      using logs_handleRSS by (rule newEvents_logs)
    then have "postCountCalls (trace ?w') = postCountCalls (trace w) @ postCountCalls (newEvents w ?w')"
      by (simp add: postCountCalls_append)
    then show "postCountCalls (newEvents w ?w') = []"
      using handleRSS_no_postCount [OF none, of w] by simp
    show "map_option postCount (feeds ?w' k) = map_option postCount (feeds w k)" for k
      using handleRSS_no_postCount [OF none, of w k] by simp
  }
  {
    fix f raws
    assume f: "feeds w (job_rss j) = Some f"
      and p: "ParseFeed e (job_url j) = Inr (Some raws)" and ne: "raws \<noteq> []"
      and store: "\<forall>ev. streamCall ev = [] \<longrightarrow> fault e ev = None"
    let ?f' = "f\<lparr>lastScraped := now e, isParsing := False\<rparr>"
    let ?wb = "w\<lparr>feeds := (feeds w)(job_rss j \<mapsto> ?f'),
           trace := trace w @ [EvRSS_update (job_rss j) (SetLastScrapedIsParsing (now e) False),
                               EvRSS_findOne (job_rss j)]\<rparr>"
    let ?wc = "update_feed (job_rss j) (\<lambda>f. f\<lparr>consecutiveScrapeFailures := 0\<rparr>)
        (?wb\<lparr>trace := trace ?wb @ [EvParseFeed (job_url j), EvRSS_resetScrapeFailures (job_rss j)]\<rparr>)"
    have f1: "fault e (EvRSS_update (job_rss j) s) = None" for s
      using store by simp
    have f2: "fault e (EvRSS_findOne (job_rss j)) = None"
      using store by simp
    have f3: "fault e (EvRSS_resetScrapeFailures (job_rss j)) = None"
      using store by simp
    have f4: "fault e (EvArticle_find (job_rss j) pairs) = None" for pairs
      using store by simp
    have f5: "fault e (EvArticle_findOneAndUpdate (job_rss j) q) = None" for q
      using store by simp
    have f6: "fault e (EvArticle_count (job_rss j)) = None"
      using store by simp
    have "parsing e j ?wb = (Inr (Some raws), ?wc)"
      using p f3 by (rule parsing_success)
    then have run: "handleRSS e j w = updateArticles e (job_rss j) ?f' raws ?wc"
      using handleRSS_acknowledged [OF f f1 f2] by simp
    have fc: "feeds ?wc (job_rss j) = Some (?f'\<lparr>consecutiveScrapeFailures := 0\<rparr>)"
      by (simp add: update_feed_def)
    show "map_option postCount (feeds ?w' (job_rss j)) =
        Some (length (filter (\<lambda>a. rss a = job_rss j) (articles ?w')))"
      unfolding run
      using ne fc f4 f5 f6 f1 by (rule updateArticles_postCount)
  }
qed

theorem postCount_recomputed_witness:
  "postCountCalls (newEvents world1 (snd (handleRSS env_empty job0 world1))) = [] \<and>
   map_option postCount (feeds (snd (handleRSS env_empty job0 world1)) ''F'') = Some 0 \<and>
   postCountCalls (newEvents world1 (snd (handleRSS env_down job0 world1))) = [] \<and>
   articles (snd (handleRSS env0 job0 world0)) = [update ''F'' post1 ''i''] \<and>
   map_option postCount (feeds (snd (handleRSS env0 job0 world0)) ''F'') = Some 1"
proof -
  have e: "\<forall>raws. ParseFeed env_empty (job_url job0) = Inr (Some raws) \<longrightarrow> raws = []"
    and d: "\<forall>raws. ParseFeed env_down (job_url job0) = Inr (Some raws) \<longrightarrow> raws = []"
    by (simp_all add: env_empty_def env_down_def env0_def)
  have f: "feeds world0 (job_rss job0) = Some feed0"
    and p: "ParseFeed env0 (job_url job0) = Inr (Some [raw1])"
    and s: "\<forall>ev. streamCall ev = [] \<longrightarrow> fault env0 ev = None"
    and r: "job_rss job0 = ''F''"
    and c: "map_option postCount (feeds world1 ''F'') = Some 0"
    by (simp_all add: fixture_defs)
  have a: "articles (snd (handleRSS env0 job0 world0)) = [update ''F'' post1 ''i'']"
    by (simp del: set_filter add: fixture_defs run_defs io_defs addActivitiesLoop.simps)
  have u: "rss (update ''F'' post1 ''i'') = ''F''"
    by (simp add: update_def)
  show ?thesis
    using postCount_recomputed [of env_empty job0 world1] postCount_recomputed [of env_down job0 world1]
      postCount_recomputed [of env0 job0 world0] e d f p s r c a u
    by simp
qed



text \<open>
  C9.  Whatever the job, the feed, the store and the failures: the first thing
  \<open>handleRSS\<close> adds to the log is the write of \<open>markDone\<close>,
  \<open>RSS.update({_id: rssID}, {lastScraped: now, isParsing: false})\<close>; every other call
  of the job (the existence check \<open>RSS.findOne\<close>, the parser, every read and write of
  an Article) comes after it.  The write is issued when the feed does not exist
  (the job then ends after \<open>RSS.findOne\<close>, having changed nothing).  On a feed that
  exists, once the store has carried the write out: \<open>markDone\<close> has set the two
  fields and nothing else; however the job goes on and ends, the feed's
  \<open>lastScraped\<close> is \<open>now\<close> and its \<open>isParsing\<close> is \<open>false\<close> after it; and the parser
  step, with all that follows it, starts in the world in which the feed holds
  the two values and the log holds the write and the existence check.
\<close>

theorem markDone_first:
  "(\<exists>rest. trace (snd (handleRSS e j w)) =
      trace w @ EvRSS_update (job_rss j) (SetLastScrapedIsParsing (now e) False) # rest) \<and>
   (feeds w (job_rss j) = None \<longrightarrow>
    fault e (EvRSS_update (job_rss j) (SetLastScrapedIsParsing (now e) False)) = None \<longrightarrow>
    fault e (EvRSS_findOne (job_rss j)) = None \<longrightarrow>
    handleRSS e j w =
      (Inr (), w\<lparr>trace := trace w @ [EvRSS_update (job_rss j) (SetLastScrapedIsParsing (now e) False),
                                     EvRSS_findOne (job_rss j)]\<rparr>)) \<and>
   (\<forall>f. feeds w (job_rss j) = Some f \<longrightarrow>
    fault e (EvRSS_update (job_rss j) (SetLastScrapedIsParsing (now e) False)) = None \<longrightarrow>
    markDone e (job_rss j) w =
      (Inr (), w\<lparr>feeds := (feeds w)(job_rss j \<mapsto> f\<lparr>lastScraped := now e, isParsing := False\<rparr>),
                trace := trace w @ [EvRSS_update (job_rss j) (SetLastScrapedIsParsing (now e) False)]\<rparr>)) \<and>
   (\<forall>f. feeds w (job_rss j) = Some f \<longrightarrow>
    fault e (EvRSS_update (job_rss j) (SetLastScrapedIsParsing (now e) False)) = None \<longrightarrow>
    map_option lastScraped (feeds (snd (handleRSS e j w)) (job_rss j)) = Some (now e) \<and>
    map_option isParsing (feeds (snd (handleRSS e j w)) (job_rss j)) = Some False) \<and>
   (\<forall>f. feeds w (job_rss j) = Some f \<longrightarrow>
    fault e (EvRSS_update (job_rss j) (SetLastScrapedIsParsing (now e) False)) = None \<longrightarrow>
    fault e (EvRSS_findOne (job_rss j)) = None \<longrightarrow>
    handleRSS e j w =
      (case parsing e j
         (w\<lparr>feeds := (feeds w)(job_rss j \<mapsto> f\<lparr>lastScraped := now e, isParsing := False\<rparr>),
            trace := trace w @ [EvRSS_update (job_rss j) (SetLastScrapedIsParsing (now e) False),
                                EvRSS_findOne (job_rss j)]\<rparr>) of
         (Inl err, wc) \<Rightarrow> (Inl err, wc)
       | (Inr None, wc) \<Rightarrow> (Inr (), wc)
       | (Inr (Some raws), wc) \<Rightarrow>
           updateArticles e (job_rss j) (f\<lparr>lastScraped := now e, isParsing := False\<rparr>) raws wc))"
proof (intro conjI)
  let ?ev = "EvRSS_update (job_rss j) (SetLastScrapedIsParsing (now e) False)"
  let ?rest = "await (RSS_findOne e (job_rss j))
           (\<lambda>found. case found of
                None \<Rightarrow> resolve ()
              | Some rssDoc \<Rightarrow>
                  await (parsing e j)
                    (\<lambda>rssContent. case rssContent of
                         None \<Rightarrow> resolve ()
                       | Some raws \<Rightarrow> updateArticles e (job_rss j) rssDoc raws))"
  obtain r w1 where m: "markDone e (job_rss j) w = (r, w1)" by (cases "markDone e (job_rss j) w") 
  have t1: "trace w1 = trace w @ [?ev]"
    using m by (auto simp: markDone_def RSS_update_def io_defs trace_update_feed split: option.splits)
  show "\<exists>rest. trace (snd (handleRSS e j w)) = trace w @ ?ev # rest"
  proof (cases r)
    case (Inl err)
    then have "trace (snd (handleRSS e j w)) = trace w @ [?ev]"
      using m t1 by (simp add: handleRSS_def Let_def await_def)
    then show ?thesis by simp
  next
    case (Inr u)
    have "prefix (trace w1) (trace (snd (?rest w1)))"
      using logs_afterMarkDone [of e "job_rss j" j] by (simp add: logs_def)
    then obtain more where "trace (snd (?rest w1)) = trace w1 @ more"
      by (auto simp: prefix_def)
    then have "trace (snd (handleRSS e j w)) = trace w @ ?ev # more"
      using m t1 Inr by (simp add: handleRSS_def Let_def await_def)
    then show ?thesis by blast
  qed
next
  show "feeds w (job_rss j) = None \<longrightarrow>
    fault e (EvRSS_update (job_rss j) (SetLastScrapedIsParsing (now e) False)) = None \<longrightarrow>
    fault e (EvRSS_findOne (job_rss j)) = None \<longrightarrow>
    handleRSS e j w =
      (Inr (), w\<lparr>trace := trace w @ [EvRSS_update (job_rss j) (SetLastScrapedIsParsing (now e) False),
                                     EvRSS_findOne (job_rss j)]\<rparr>)"
    by (simp add: handleRSS_def Let_def markDone_def RSS_update_def RSS_findOne_def io_defs
        update_feed_def)
next
  show "\<forall>f. feeds w (job_rss j) = Some f \<longrightarrow>
    fault e (EvRSS_update (job_rss j) (SetLastScrapedIsParsing (now e) False)) = None \<longrightarrow>
    markDone e (job_rss j) w =
      (Inr (), w\<lparr>feeds := (feeds w)(job_rss j \<mapsto> f\<lparr>lastScraped := now e, isParsing := False\<rparr>),
                trace := trace w @ [EvRSS_update (job_rss j) (SetLastScrapedIsParsing (now e) False)]\<rparr>)"
    by (simp add: markDone_def RSS_update_def io_defs update_feed_def)
next
  show "\<forall>f. feeds w (job_rss j) = Some f \<longrightarrow>
    fault e (EvRSS_update (job_rss j) (SetLastScrapedIsParsing (now e) False)) = None \<longrightarrow>
    map_option lastScraped (feeds (snd (handleRSS e j w)) (job_rss j)) = Some (now e) \<and>
    map_option isParsing (feeds (snd (handleRSS e j w)) (job_rss j)) = Some False"
  proof (intro allI impI)
    fix f
    assume f: "feeds w (job_rss j) = Some f"
      and a: "fault e (EvRSS_update (job_rss j) (SetLastScrapedIsParsing (now e) False)) = None"
    have "map_option (\<lambda>f. (lastScraped f, isParsing f)) (feeds (snd (handleRSS e j w)) (job_rss j)) =
        Some (now e, False)"
      using f a by (rule handleRSS_ack_fields)
    then show "map_option lastScraped (feeds (snd (handleRSS e j w)) (job_rss j)) = Some (now e) \<and>
        map_option isParsing (feeds (snd (handleRSS e j w)) (job_rss j)) = Some False"
      by (cases "feeds (snd (handleRSS e j w)) (job_rss j)") simp_all
  qed
next
  show "\<forall>f. feeds w (job_rss j) = Some f \<longrightarrow>
    fault e (EvRSS_update (job_rss j) (SetLastScrapedIsParsing (now e) False)) = None \<longrightarrow>
    fault e (EvRSS_findOne (job_rss j)) = None \<longrightarrow>
    handleRSS e j w =
      (case parsing e j
         (w\<lparr>feeds := (feeds w)(job_rss j \<mapsto> f\<lparr>lastScraped := now e, isParsing := False\<rparr>),
            trace := trace w @ [EvRSS_update (job_rss j) (SetLastScrapedIsParsing (now e) False),
                                EvRSS_findOne (job_rss j)]\<rparr>) of
         (Inl err, wc) \<Rightarrow> (Inl err, wc)
       | (Inr None, wc) \<Rightarrow> (Inr (), wc)
       | (Inr (Some raws), wc) \<Rightarrow>
           updateArticles e (job_rss j) (f\<lparr>lastScraped := now e, isParsing := False\<rparr>) raws wc)"
    using handleRSS_acknowledged [of w j _ e] by (intro allI impI)
qed

theorem markDone_first_witness:
  "hd (newEvents world0 (snd (handleRSS env0 job0 world0))) =
     EvRSS_update ''F'' (SetLastScrapedIsParsing ''now'' False) \<and>
   handleRSS env0 (job0\<lparr>job_rss := ''G''\<rparr>) world0 =
      (Inr (), world0\<lparr>trace := [EvRSS_update ''G'' (SetLastScrapedIsParsing ''now'' False),
                                   EvRSS_findOne ''G'']\<rparr>) \<and>
   map_option isParsing (feeds (snd (markDone env0 ''F'' world0)) ''F'') = Some False \<and>
   map_option lastScraped (feeds (snd (markDone env0 ''F'' world0)) ''F'') = Some ''now'' \<and>
   map_option isParsing (feeds world0 ''F'') = Some True \<and>
   map_option lastScraped (feeds world0 ''F'') = Some ''then'' \<and>
   map_option isParsing (feeds (snd (handleRSS env0 job0 world0)) ''F'') = Some False \<and>
   map_option lastScraped (feeds (snd (handleRSS env0 job0 world0)) ''F'') = Some ''now'' \<and>
   map_option isParsing (feeds (snd (handleRSS env_down job0 world0)) ''F'') = Some False \<and>
   map_option lastScraped (feeds (snd (handleRSS env_down job0 world0)) ''F'') = Some ''now''"
proof -
  have f: "feeds world0 (job_rss job0) = Some feed0"
    and g: "feeds world0 (job_rss (job0\<lparr>job_rss := ''G''\<rparr>)) = None"
    by (simp_all add: world0_def job0_def)
  have ok: "fault env0 ev = None" and down: "fault env_down ev = None" for ev
    by (simp_all add: env0_def env_down_def)
  have n: "now env0 = ''now''" "now env_down = ''now''" "job_rss job0 = ''F''"
      "job_rss (job0\<lparr>job_rss := ''G''\<rparr>) = ''G''" "trace world0 = []"
      "map_option isParsing (feeds world0 ''F'') = Some True"
      "map_option lastScraped (feeds world0 ''F'') = Some ''then''"
    by (simp_all add: env0_def env_down_def job0_def world0_def feed0_def)
  note a = markDone_first [of env0 job0 world0]
  note b = markDone_first [of env0 "job0\<lparr>job_rss := ''G''\<rparr>" world0]
  note c = markDone_first [of env_down job0 world0]
  have 1: "hd (newEvents world0 (snd (handleRSS env0 job0 world0))) =
     EvRSS_update ''F'' (SetLastScrapedIsParsing ''now'' False)"
    using a [THEN conjunct1] n by (auto simp add: newEvents_def)
  have 2: "handleRSS env0 (job0\<lparr>job_rss := ''G''\<rparr>) world0 =
      (Inr (), world0\<lparr>trace := [EvRSS_update ''G'' (SetLastScrapedIsParsing ''now'' False),
                                   EvRSS_findOne ''G'']\<rparr>)"
    using b [THEN conjunct2, THEN conjunct1] g ok n by simp
  have 3: "markDone env0 ''F'' world0 =
      (Inr (), world0\<lparr>feeds := (feeds world0)(''F'' \<mapsto> feed0\<lparr>lastScraped := ''now'', isParsing := False\<rparr>),
                trace := [EvRSS_update ''F'' (SetLastScrapedIsParsing ''now'' False)]\<rparr>)"
    using a [THEN conjunct2, THEN conjunct2, THEN conjunct1] f ok n by simp
  have 4: "map_option lastScraped (feeds (snd (handleRSS env0 job0 world0)) ''F'') = Some ''now'' \<and>
      map_option isParsing (feeds (snd (handleRSS env0 job0 world0)) ''F'') = Some False"
    using a [THEN conjunct2, THEN conjunct2, THEN conjunct2, THEN conjunct1] f ok n by simp
  have 5: "map_option lastScraped (feeds (snd (handleRSS env_down job0 world0)) ''F'') = Some ''now'' \<and>
      map_option isParsing (feeds (snd (handleRSS env_down job0 world0)) ''F'') = Some False"
    using c [THEN conjunct2, THEN conjunct2, THEN conjunct2, THEN conjunct1] f down n by simp
  show ?thesis
    using 1 2 4 5 n(6,7) unfolding 3 by simp
qed

text \<open>
  C10.  \<open>upsertManyArticles\<close> adds to the store exactly one document for each article
  it returns, and nothing in \<open>handleRSS\<close> removes a document; so a job inserts no
  article exactly when the store holds as many articles after it as before.  Such
  a job, whatever else happens in it, makes no \<open>addActivities\<close> call and no
  \<open>sendRssFeedToCollections\<close> call.
\<close>

theorem no_insert_no_stream:
  assumes "length (articles (snd (handleRSS e j w))) = length (articles w)"
  shows "streamCalls (newEvents w (snd (handleRSS e j w))) = [] \<and>
         (\<forall>as wa rs wb. upsertManyArticles e (job_rss j) as wa = (Inr rs, wb) \<longrightarrow>
             length (articles wb) = length (articles wa) + length (updatedArticles rs))"
proof (intro conjI allI impI)
  let ?w' = "snd (handleRSS e j w)"
  let ?obs = "\<lambda>w. (streamCalls (trace w), length (articles w))"
  have k1: "keeps ?obs (markDone e (job_rss j))"
    unfolding markDone_def streamCalls_def
    by (intro keeps_pair silent_RSS_update keeps_comp [OF keeps_articles_RSS_update]) simp
  have k2: "keeps ?obs (RSS_findOne e (job_rss j))"
    unfolding streamCalls_def
    by (intro keeps_pair silent_RSS_findOne keeps_comp [OF keeps_articles_RSS_findOne]) simp
  have k3: "keeps ?obs (parsing e j)"
    unfolding streamCalls_def
    by (intro keeps_pair silent_parsing keeps_comp [OF keeps_articles_parsing]) simp_all
  have same: "streamCalls (trace ?w') = streamCalls (trace w)"
    using handleRSS_split [of ?obs e j w, OF k1 k2 k3]
  proof (elim disjE exE conjE)
    assume "?obs ?w' = ?obs w"
    then show ?thesis by simp
  next
    fix rssDoc raws wc
    assume o: "?obs wc = ?obs w"
      and run: "handleRSS e j w = updateArticles e (job_rss j) rssDoc raws wc"
    have "length (articles (snd (updateArticles e (job_rss j) rssDoc raws wc))) = length (articles wc)"
      using assms run o by simp
    then have "streamCalls (trace (snd (updateArticles e (job_rss j) rssDoc raws wc))) =
        streamCalls (trace wc)"
      by (rule updateArticles_no_insert)
    then show ?thesis using run o by simp
  qed
  have "trace ?w' = trace w @ newEvents w ?w'"
    using logs_handleRSS by (rule newEvents_logs)
  then have "streamCalls (trace ?w') = streamCalls (trace w) @ streamCalls (newEvents w ?w')"
    by (simp add: streamCalls_append)
  then show "streamCalls (newEvents w ?w') = []"
    using same by simp
next
  fix as wa rs wb
  assume "upsertManyArticles e (job_rss j) as wa = (Inr rs, wb)"
  then show "length (articles wb) = length (articles wa) + length (updatedArticles rs)"
    by (rule upsertManyArticles_length)
qed

theorem no_insert_no_stream_witness:
  "articles (snd (handleRSS env0 job0 world1)) = [stored1] \<and>
   streamCalls (newEvents world1 (snd (handleRSS env0 job0 world1))) = [] \<and>
   articles (snd (handleRSS env_changed job0 world1)) = [update ''F'' post4 ''i''] \<and>
   streamCalls (newEvents world1 (snd (handleRSS env_changed job0 world1))) = []"
proof -
  have a: "articles (snd (handleRSS env0 job0 world1)) = [stored1]"
    by (simp add: fixture_defs run_defs io_defs)
  have b: "articles (snd (handleRSS env_changed job0 world1)) = [update ''F'' post4 ''i'']"
    by (simp del: set_filter add: env_changed_def fixture_defs run_defs io_defs)
  have l: "length (articles world1) = 1"
    by (simp add: world1_def)
  show ?thesis
    using no_insert_no_stream [of env0 job0 world1] no_insert_no_stream [of env_changed job0 world1]
      a b l
    by simp
qed

end
